theory Spec2Isabelle
  imports Main "HOL-Library.Word" "HOL-Library.Finite_Map"
begin

section \<open>The connection pool of conn\_pool.go\<close>

text \<open>
  The pool keeps two Go maps from a 16-byte key to a client with its creation time. Everything
  outside the file (the mongo driver, the clock, the JSON encoder, MD5 and the order in which
  the Go runtime walks a map) is a field of the record \<open>env\<close>: an oracle indexed by the number
  of external calls made so far, which is the length of the trace of events that every
  function threads through. The trace is most recent first. The lock is left out: the
  operations are run one after the other. \<^verbatim>\<open>poolSize\<close> and the counters of the fill loops are Go
  \<^verbatim>\<open>int\<close>s, taken here as integers, which agrees with the code for every capacity below the
  largest \<^verbatim>\<open>int\<close>; the times are \<^verbatim>\<open>int64\<close> and wrap.
\<close>

subsection \<open>Data\<close>

type_synonym key = "128 word"
  \<comment> \<open>\<^verbatim>\<open>[16]byte\<close>, the result of \<^verbatim>\<open>md5.Sum\<close>\<close>

type_synonym byte = "8 word"

type_synonym int64 = "64 word"

type_synonym client = nat
  \<comment> \<open>a non-nil \<^verbatim>\<open>*mongo.Client\<close>: the address it points to\<close>

datatype error =
    External string
      \<comment> \<open>an error value made by the driver\<close>
  | Errorf string error
      \<comment> \<open>\<^verbatim>\<open>fmt.Errorf("<context> :: %v", e)\<close>\<close>

datatype panic = NilPointerDereference

datatype event =
    EvNewClient string "error + client"
  | EvConnect client "error option"
  | EvDisconnect client "error option"
  | EvNow int64

record clientWithCreation =
  db :: client
  creationTime :: int64

record ConnPool =
  connectionsInUse :: "(key, clientWithCreation) fmap"
  freeConnections :: "(key, clientWithCreation) fmap"
  poolSize :: int
  connStr :: string
  expiry :: int64

record env =
  mongo_NewClient :: "nat \<Rightarrow> string \<Rightarrow> error + client"
  client_Connect :: "nat \<Rightarrow> client \<Rightarrow> error option"
  client_Disconnect :: "nat \<Rightarrow> client \<Rightarrow> error option"
  time_Now_UnixNano :: "nat \<Rightarrow> int64"
  json_Marshal :: "nat \<Rightarrow> client \<Rightarrow> byte list"
  md5_Sum :: "byte list \<Rightarrow> key"
  range_rank :: "nat \<Rightarrow> key \<Rightarrow> nat"

subsection \<open>Go primitives\<close>

definition len :: "(key, clientWithCreation) fmap \<Rightarrow> int" where
  "len m = int (fcard (fmdom m))"

text \<open>
  \<^verbatim>\<open>for k, v := range m\<close> produces every key once, in an order the runtime picks: here the keys
  sorted by the rank the oracle gives them at this moment. Every order is the order of some
  rank.
\<close>

definition range_keys :: "env \<Rightarrow> event list \<Rightarrow> (key, clientWithCreation) fmap \<Rightarrow> key list" where
  "range_keys E tr m = sort_key (range_rank E (length tr)) (sorted_list_of_fset (fmdom m))"

definition time_Now :: "env \<Rightarrow> event list \<Rightarrow> int64 \<times> event list" where
  "time_Now E tr = (let t = time_Now_UnixNano E (length tr) in (t, EvNow t # tr))"

text \<open>\<^verbatim>\<open>now-v.creationTime > c.expiry\<close> on \<^verbatim>\<open>int64\<close>: the subtraction wraps, the comparison is signed.\<close>

definition expired :: "int64 \<Rightarrow> clientWithCreation \<Rightarrow> int64 \<Rightarrow> bool" where
  "expired now v ttl = (sint ttl < sint (now - creationTime v))"

subsection \<open>Operations\<close>

definition CreateConnPool :: "int \<Rightarrow> string \<Rightarrow> ConnPool \<times> error option" where
  "CreateConnPool n s =
     (\<lparr>connectionsInUse = fmempty, freeConnections = fmempty, poolSize = n, connStr = s,
       expiry = 300000000000\<rparr>, None)"

definition create :: "env \<Rightarrow> ConnPool \<Rightarrow> event list \<Rightarrow> (error + client) \<times> event list" where
  "create E c tr =
     (let r = mongo_NewClient E (length tr) (connStr c); tr' = EvNewClient (connStr c) r # tr
      in case r of
           Inl e \<Rightarrow> (Inl (Errorf ''error at mongo db creation'' e), tr')
         | Inr cl \<Rightarrow> (Inr cl, tr'))"

definition validate :: "env \<Rightarrow> client \<Rightarrow> event list \<Rightarrow> error option \<times> event list" where
  "validate E cl tr =
     (let r = client_Connect E (length tr) cl; tr' = EvConnect cl r # tr
      in case r of
           Some err \<Rightarrow> (Some (Errorf ''error in connecting mongo'' err), tr')
         | None \<Rightarrow> (None, tr'))"

definition kill :: "env \<Rightarrow> client \<Rightarrow> event list \<Rightarrow> error option \<times> event list" where
  "kill E cl tr =
     (let r = client_Disconnect E (length tr) cl in (r, EvDisconnect cl r # tr))"

text \<open>
  \<^verbatim>\<open>hash\<close> reads the struct the pointer refers to when it is called, so the bytes are those of
  this moment; the error of \<^verbatim>\<open>json.Marshal\<close> is dropped.
\<close>

definition hash :: "env \<Rightarrow> event list \<Rightarrow> client \<Rightarrow> key" where
  "hash E tr cl = md5_Sum E ([] @ json_Marshal E (length tr) cl)"

definition createConnections :: "env \<Rightarrow> ConnPool \<Rightarrow> event list \<Rightarrow> error option \<times> ConnPool \<times> event list" where
  "createConnections E c tr =
     (case create E c tr of
        (Inl e, tr1) \<Rightarrow> (Some (Errorf ''error at creating the connection pool'' e), c, tr1)
      | (Inr cl, tr1) \<Rightarrow>
          (case validate E cl tr1 of
             (Some e, tr2) \<Rightarrow> (Some (Errorf ''error at creating the connection pool'' e), c, tr2)
           | (None, tr2) \<Rightarrow>
               (let (t, tr3) = time_Now E tr2;
                    customClient = \<lparr>db = cl, creationTime = t\<rparr>;
                    h = hash E tr3 cl
                in (None, c\<lparr>freeConnections := fmupd h customClient (freeConnections c)\<rparr>, tr3))))"

text \<open>Lines 53 to 58: \<^verbatim>\<open>for i := 0; i < c.poolSize; i++\<close>.\<close>

function fill_first :: "env \<Rightarrow> int \<Rightarrow> ConnPool \<Rightarrow> event list \<Rightarrow> error option \<times> ConnPool \<times> event list" where
  "fill_first E i c tr =
     (if i < poolSize c then
        (case createConnections E c tr of
           (Some err, c', tr') \<Rightarrow> (Some err, c', tr')
         | (None, c', tr') \<Rightarrow> fill_first E (i + 1) c' tr')
      else (None, c, tr))"
  by pat_completeness auto
termination
  by (relation "measure (\<lambda>(E, i, c, tr). nat (poolSize c - i))")
     (auto simp: createConnections_def Let_def split: prod.splits sum.splits option.splits)

text \<open>Lines 64 to 69: \<^verbatim>\<open>for i := len(free) + len(inUse); i <= c.poolSize; i++\<close>.\<close>

function fill_difference :: "env \<Rightarrow> int \<Rightarrow> ConnPool \<Rightarrow> event list \<Rightarrow> error option \<times> ConnPool \<times> event list" where
  "fill_difference E i c tr =
     (if i \<le> poolSize c then
        (case createConnections E c tr of
           (Some err, c', tr') \<Rightarrow> (Some err, c', tr')
         | (None, c', tr') \<Rightarrow> fill_difference E (i + 1) c' tr')
      else (None, c, tr))"
  by pat_completeness auto
termination
  by (relation "measure (\<lambda>(E, i, c, tr). nat (poolSize c + 1 - i))")
     (auto simp: createConnections_def Let_def split: prod.splits sum.splits option.splits)

declare fill_first.simps [simp del] fill_difference.simps [simp del]

text \<open>
  Lines 72 to 95, the body of the \<^verbatim>\<open>range\<close> loop over the keys in the order the runtime
  produces them. \<open>Some r\<close> is a \<^verbatim>\<open>return\<close> from inside the loop, \<open>None\<close> is the loop running to
  its end. A key that is no longer in the map is not produced.
\<close>

fun scan :: "env \<Rightarrow> int64 \<Rightarrow> key list \<Rightarrow> ConnPool \<Rightarrow> event list
    \<Rightarrow> (error + client) option \<times> ConnPool \<times> event list" where
  "scan E now [] c tr = (None, c, tr)"
| "scan E now (k # ks) c tr =
     (case fmlookup (freeConnections c) k of
        None \<Rightarrow> scan E now ks c tr
      | Some v \<Rightarrow>
          if expired now v (expiry c) then
            (let c' = c\<lparr>freeConnections := fmdrop k (freeConnections c)\<rparr>
             in case kill E (db v) tr of
                  (Some err, tr') \<Rightarrow>
                    (Some (Inl (Errorf ''error while closing the connection'' err)), c', tr')
                | (None, tr') \<Rightarrow> scan E now ks c' tr')
          else
            (case validate E (db v) tr of
               (Some verr, tr1) \<Rightarrow>
                 (let c' = c\<lparr>freeConnections := fmdrop k (freeConnections c)\<rparr>
                  in case kill E (db v) tr1 of
                       (Some err, tr') \<Rightarrow>
                         (Some (Inl (Errorf ''error while closing the connection'' err)), c', tr')
                     | (None, tr') \<Rightarrow> scan E now ks c' tr')
             | (None, tr1) \<Rightarrow>
                 (Some (Inr (db v)),
                  c\<lparr>freeConnections := fmdrop k (freeConnections c),
                    connectionsInUse := fmupd k (v\<lparr>creationTime := now\<rparr>) (connectionsInUse c)\<rparr>,
                  tr1)))"

text \<open>\<^verbatim>\<open>Checkout\<close>, lines 52 to 69: the first fill, the reading of the clock, the fill of the difference.\<close>

definition Checkout_fill :: "env \<Rightarrow> ConnPool \<Rightarrow> event list \<Rightarrow> (error + int64) \<times> ConnPool \<times> event list" where
  "Checkout_fill E c tr =
     (case (if len (freeConnections c) = 0 \<and> len (connectionsInUse c) = 0
            then fill_first E 0 c tr else (None, c, tr)) of
        (Some err, c1, tr1) \<Rightarrow> (Inl err, c1, tr1)
      | (None, c1, tr1) \<Rightarrow>
          (let (now, tr2) = time_Now E tr1 in
           case fill_difference E (len (freeConnections c1) + len (connectionsInUse c1)) c1 tr2 of
             (Some err, c3, tr3) \<Rightarrow> (Inl err, c3, tr3)
           | (None, c3, tr3) \<Rightarrow> (Inr now, c3, tr3)))"

text \<open>Lines 71 to 96.\<close>

definition Checkout_scan :: "env \<Rightarrow> int64 \<Rightarrow> ConnPool \<Rightarrow> event list
    \<Rightarrow> (error + client) option \<times> ConnPool \<times> event list" where
  "Checkout_scan E now c tr =
     (if len (freeConnections c) > 0
      then scan E now (range_keys E tr (freeConnections c)) c tr
      else (None, c, tr))"

text \<open>Lines 98 to 109.\<close>

definition Checkout_miss :: "env \<Rightarrow> int64 \<Rightarrow> ConnPool \<Rightarrow> event list
    \<Rightarrow> (error + client) \<times> ConnPool \<times> event list" where
  "Checkout_miss E now c tr =
     (case create E c tr of
        (Inl e, tr5) \<Rightarrow> (Inl (Errorf ''error while creating the connection'' e), c, tr5)
      | (Inr cl, tr5) \<Rightarrow>
          (let h = hash E tr5 cl
           in (Inr cl,
               c\<lparr>connectionsInUse :=
                    fmupd h \<lparr>db = cl, creationTime = now\<rparr> (connectionsInUse c)\<rparr>,
               tr5)))"

definition Checkout :: "env \<Rightarrow> ConnPool \<Rightarrow> event list \<Rightarrow> (error + client) \<times> ConnPool \<times> event list" where
  "Checkout E c tr =
     (case Checkout_fill E c tr of
        (Inl err, c3, tr3) \<Rightarrow> (Inl err, c3, tr3)
      | (Inr now, c3, tr3) \<Rightarrow>
          (case Checkout_scan E now c3 tr3 of
             (Some r, c4, tr4) \<Rightarrow> (r, c4, tr4)
           | (None, c4, tr4) \<Rightarrow> Checkout_miss E now c4 tr4))"

text \<open>
  \<^verbatim>\<open>CheckIn\<close> takes any \<^verbatim>\<open>*mongo.Client\<close>; \<open>None\<close> is the nil pointer, which \<^verbatim>\<open>c.hash(*client)\<close>
  dereferences.
\<close>

definition CheckIn :: "env \<Rightarrow> client option \<Rightarrow> ConnPool \<Rightarrow> event list
    \<Rightarrow> panic option \<times> ConnPool \<times> event list" where
  "CheckIn E p c tr =
     (case p of
        None \<Rightarrow> (Some NilPointerDereference, c, tr)
      | Some cl \<Rightarrow>
          (let h = hash E tr cl;
               c1 = c\<lparr>connectionsInUse := fmdrop h (connectionsInUse c)\<rparr>
           in if len (freeConnections c1) + len (connectionsInUse c1) < poolSize c1 then
                (let (t, tr') = time_Now E tr
                 in (None,
                     c1\<lparr>freeConnections := fmupd h \<lparr>db = cl, creationTime = t\<rparr> (freeConnections c1)\<rparr>,
                     tr'))
              else (None, c1, tr)))"

subsection \<open>Observations\<close>

definition live_count :: "ConnPool \<Rightarrow> int" where
  "live_count c = len (freeConnections c) + len (connectionsInUse c)"

text \<open>The clients that \<^verbatim>\<open>mongo.NewClient\<close> returned, and those \<^verbatim>\<open>Disconnect\<close> was called on.\<close>

fun creations :: "event list \<Rightarrow> client list" where
  "creations [] = []"
| "creations (EvNewClient s (Inr cl) # tr) = cl # creations tr"
| "creations (e # tr) = creations tr"

fun disconnects :: "event list \<Rightarrow> client list" where
  "disconnects [] = []"
| "disconnects (EvDisconnect cl r # tr) = cl # disconnects tr"
| "disconnects (e # tr) = disconnects tr"

definition disjoint_pool :: "ConnPool \<Rightarrow> bool" where
  "disjoint_pool c \<longleftrightarrow> fmdom (freeConnections c) |\<inter>| fmdom (connectionsInUse c) = {||}"

text \<open>
  Whether the environment answers with an error the call that an event records, when that call
  is the call number \<open>t\<close>. Only \<^verbatim>\<open>mongo.NewClient\<close> and \<^verbatim>\<open>Connect\<close> count: the creations and the
  validations.
\<close>

fun call_fails :: "env \<Rightarrow> nat \<Rightarrow> event \<Rightarrow> bool" where
  "call_fails E t (EvNewClient s r) = (case mongo_NewClient E t s of Inl e \<Rightarrow> True | Inr cl \<Rightarrow> False)"
| "call_fails E t (EvConnect cl r) = (case client_Connect E t cl of Some e \<Rightarrow> True | None \<Rightarrow> False)"
| "call_fails E t (EvDisconnect cl r) = False"
| "call_fails E t (EvNow x) = False"

text \<open>The events \<open>evs\<close>, most recent first, are the calls from number \<open>n\<close> on: one of them fails.\<close>

fun some_call_fails :: "env \<Rightarrow> nat \<Rightarrow> event list \<Rightarrow> bool" where
  "some_call_fails E n [] = False"
| "some_call_fails E n (ev # evs) = (call_fails E (n + length evs) ev \<or> some_call_fails E n evs)"

text \<open>
  The error that \<^verbatim>\<open>createConnections\<close> returns when the call number \<open>t\<close> fails: the error of the
  driver in the context of \<^verbatim>\<open>create\<close> or of \<^verbatim>\<open>validate\<close>, then in that of \<^verbatim>\<open>createConnections\<close>.
\<close>

definition wraps_failure :: "env \<Rightarrow> string \<Rightarrow> nat \<Rightarrow> error \<Rightarrow> bool" where
  "wraps_failure E s t err \<longleftrightarrow>
     (\<exists>x. mongo_NewClient E t s = Inl x \<and>
        err = Errorf ''error at creating the connection pool'' (Errorf ''error at mongo db creation'' x)) \<or>
     (\<exists>cl x. client_Connect E t cl = Some x \<and>
        err = Errorf ''error at creating the connection pool'' (Errorf ''error in connecting mongo'' x))"

subsection \<open>Callers\<close>

text \<open>A caller that checks out \<open>n\<close> times and collects the connections it is given.\<close>

fun checkouts :: "env \<Rightarrow> nat \<Rightarrow> ConnPool \<Rightarrow> event list \<Rightarrow> client list \<times> ConnPool \<times> event list" where
  "checkouts E 0 c tr = ([], c, tr)"
| "checkouts E (Suc n) c tr =
     (case Checkout E c tr of
        (Inl err, c', tr') \<Rightarrow> checkouts E n c' tr'
      | (Inr p, c', tr') \<Rightarrow>
          (case checkouts E n c' tr' of (ps, c'', tr'') \<Rightarrow> (p # ps, c'', tr'')))"

text \<open>A caller that checks in the connections of a list, one after the other.\<close>

fun checkins :: "env \<Rightarrow> client list \<Rightarrow> ConnPool \<Rightarrow> event list \<Rightarrow> ConnPool \<times> event list" where
  "checkins E [] c tr = (c, tr)"
| "checkins E (p # ps) c tr =
     (case CheckIn E (Some p) c tr of (r, c', tr') \<Rightarrow> checkins E ps c' tr')"

subsection \<open>Assumptions on the environment\<close>

text \<open>Every \<^verbatim>\<open>mongo.NewClient\<close> on this connection string succeeds.\<close>

definition creation_succeeds :: "env \<Rightarrow> string \<Rightarrow> bool" where
  "creation_succeeds E s \<longleftrightarrow> (\<forall>t. \<exists>cl. mongo_NewClient E t s = Inr cl)"

text \<open>Every \<^verbatim>\<open>Connect\<close> succeeds.\<close>

definition validation_succeeds :: "env \<Rightarrow> bool" where
  "validation_succeeds E \<longleftrightarrow> (\<forall>t cl. client_Connect E t cl = None)"

text \<open>The test of line 74 fails for any two readings of the clock: no connection expires.\<close>

definition never_expires :: "env \<Rightarrow> bool" where
  "never_expires E \<longleftrightarrow>
     (\<forall>t t'. \<not> sint (300000000000 :: int64) < sint (time_Now_UnixNano E t - time_Now_UnixNano E t'))"

text \<open>The JSON of a client never changes.\<close>

definition stable_json :: "env \<Rightarrow> bool" where
  "stable_json E \<longleftrightarrow> (\<forall>t t' cl. json_Marshal E t cl = json_Marshal E t' cl)"

text \<open>
  A \<^verbatim>\<open>Checkout\<close> of an empty pool of capacity 0 that starts after the calls of \<open>tr\<close> reads the clock
  (call number \<open>length tr\<close>); its loop of lines 64 to 69 then makes one connection: created by the
  next call, validated by the one after, with the reading of call number \<open>length tr + 3\<close> as
  creation time. Here the test of line 74 finds that connection expired and the \<^verbatim>\<open>Disconnect\<close>
  that follows, call number \<open>length tr + 4\<close>, fails.
\<close>

definition closing_expired_fails :: "env \<Rightarrow> string \<Rightarrow> event list \<Rightarrow> bool" where
  "closing_expired_fails E s tr \<longleftrightarrow>
     (case mongo_NewClient E (length tr + 1) s of
        Inl e \<Rightarrow> False
      | Inr cl \<Rightarrow>
          expired (time_Now_UnixNano E (length tr))
            \<lparr>db = cl, creationTime = time_Now_UnixNano E (length tr + 3)\<rparr> 300000000000 \<and>
          client_Disconnect E (length tr + 4) cl \<noteq> None)"

subsection \<open>Invariants\<close>

text \<open>Both fill loops run \<^verbatim>\<open>createConnections\<close> a number of times and stop at the first error.\<close>

fun repeat_create :: "env \<Rightarrow> nat \<Rightarrow> ConnPool \<Rightarrow> event list \<Rightarrow> error option \<times> ConnPool \<times> event list" where
  "repeat_create E 0 c tr = (None, c, tr)"
| "repeat_create E (Suc n) c tr =
     (case createConnections E c tr of
        (Some err, c', tr') \<Rightarrow> (Some err, c', tr')
      | (None, c', tr') \<Rightarrow> repeat_create E n c' tr')"

text \<open>
  What the fill phase keeps: the in-use map and the configuration; the keys of the free map;
  the trace, which only grows; and every new entry of the free map holds a client created on
  the way, under a key that \<^verbatim>\<open>hash\<close> computed for it.
\<close>

definition step_ok :: "env \<Rightarrow> ConnPool \<Rightarrow> event list \<Rightarrow> ConnPool \<Rightarrow> event list \<Rightarrow> bool" where
  "step_ok E c tr c' tr' \<longleftrightarrow>
     connectionsInUse c' = connectionsInUse c \<and> poolSize c' = poolSize c \<and>
     connStr c' = connStr c \<and> expiry c' = expiry c \<and>
     fmdom (freeConnections c) |\<subseteq>| fmdom (freeConnections c') \<and>
     (\<exists>evs. tr' = evs @ tr \<and>
        (\<forall>k v. fmlookup (freeConnections c') k = Some v \<longrightarrow>
           fmlookup (freeConnections c) k = Some v \<or>
           db v \<in> set (creations evs) \<and> (\<exists>tr''. k = hash E tr'' (db v))))"

text \<open>Every entry of either map is stored under the key that \<^verbatim>\<open>hash\<close> computes for its client.\<close>

definition keyed :: "env \<Rightarrow> ConnPool \<Rightarrow> bool" where
  "keyed E c \<longleftrightarrow>
     (\<forall>k v. fmlookup (freeConnections c) k = Some v \<or> fmlookup (connectionsInUse c) k = Some v
        \<longrightarrow> k = hash E [] (db v))"

text \<open>
  Every free entry holds a client that the trace records as created, under the key of that
  client, with a reading of the clock as creation time.
\<close>

definition traced :: "env \<Rightarrow> ConnPool \<Rightarrow> event list \<Rightarrow> bool" where
  "traced E c tr \<longleftrightarrow>
     (\<forall>k v. fmlookup (freeConnections c) k = Some v \<longrightarrow>
        db v \<in> set (creations tr) \<and> k = hash E [] (db v) \<and>
        (\<exists>t. creationTime v = time_Now_UnixNano E t))"

text \<open>
  The time to live is the default, and every free entry is under the key of its client with
  a reading of the clock as creation time.
\<close>

definition ready :: "env \<Rightarrow> ConnPool \<Rightarrow> bool" where
  "ready E c \<longleftrightarrow>
     expiry c = 300000000000 \<and>
     (\<forall>k v. fmlookup (freeConnections c) k = Some v \<longrightarrow>
        k = hash E [] (db v) \<and> (\<exists>t. creationTime v = time_Now_UnixNano E t))"

text \<open>
  The clients of \<open>S\<close> are the ones in use, under their own distinct keys, and the free map
  has \<open>P + extra\<close> entries less the size of \<open>S\<close>.
\<close>

definition holds :: "env \<Rightarrow> int \<Rightarrow> ConnPool \<Rightarrow> client set \<Rightarrow> int \<Rightarrow> bool" where
  "holds E P c S extra \<longleftrightarrow>
     poolSize c = P \<and> disjoint_pool c \<and> finite S \<and> inj_on (hash E []) S \<and>
     fset (fmdom (connectionsInUse c)) = hash E [] ` S \<and>
     len (freeConnections c) = P + extra - int (card S)"

subsection \<open>Example environments and states\<close>

text \<open>
  Every call succeeds; the client made by the call number \<open>t\<close> is the address \<open>t\<close>; its JSON is
  one byte holding the address, so that clients below 256 have distinct keys; the clock reads
  the number of calls so far; the runtime walks a map by ascending key.
\<close>

definition env_distinct :: env where
  "env_distinct =
     \<lparr>mongo_NewClient = (\<lambda>t s. Inr t),
      client_Connect = (\<lambda>t p. None),
      client_Disconnect = (\<lambda>t p. None),
      time_Now_UnixNano = (\<lambda>t. of_nat t),
      json_Marshal = (\<lambda>t p. [of_nat p]),
      md5_Sum = (\<lambda>bs. foldr (\<lambda>b a. ucast b + 256 * a) bs 0),
      range_rank = (\<lambda>t k. unat k)\<rparr>"

text \<open>
  The same, with the JSON of every client being the two bytes \<^verbatim>\<open>{}\<close>, which is what
  \<^verbatim>\<open>encoding/json\<close> writes for a struct with no exported field.
\<close>

definition env_braces :: env where
  "env_braces = env_distinct\<lparr>json_Marshal := (\<lambda>t p. [123, 125])\<rparr>"

text \<open>An environment in which the \<^verbatim>\<open>Connect\<close> made as call number \<open>bad\<close> fails.\<close>

definition failing_at :: "nat \<Rightarrow> env \<Rightarrow> env" where
  "failing_at bad E =
     E\<lparr>client_Connect :=
         (\<lambda>t p. if t = bad then Some (External ''server selection timeout'') else client_Connect E t p)\<rparr>"

text \<open>An environment whose clock reads 0 before call number \<open>at\<close> and \<open>late\<close> from then on.\<close>

definition clock_jump :: "nat \<Rightarrow> int64 \<Rightarrow> env \<Rightarrow> env" where
  "clock_jump at late E = E\<lparr>time_Now_UnixNano := (\<lambda>t. if t < at then 0 else late)\<rparr>"

text \<open>The state a first \<^verbatim>\<open>Checkout\<close> leaves in \<open>env_distinct\<close> when the capacity is 2.\<close>

definition pool_after_first :: ConnPool where
  "pool_after_first =
     \<lparr>connectionsInUse = fmupd 0 \<lparr>db = 0, creationTime = 6\<rparr> fmempty,
      freeConnections =
        fmupd 3 \<lparr>db = 3, creationTime = 5\<rparr> (fmupd 7 \<lparr>db = 7, creationTime = 9\<rparr> fmempty),
      poolSize = 2, connStr = ''db'', expiry = 300000000000\<rparr>"

definition trace_after_first :: "event list" where
  "trace_after_first =
     [EvConnect 0 None, EvNow 9, EvConnect 7 None, EvNewClient ''db'' (Inr 7), EvNow 6, EvNow 5,
      EvConnect 3 None, EvNewClient ''db'' (Inr 3), EvNow 2, EvConnect 0 None,
      EvNewClient ''db'' (Inr 0)]"

text \<open>
  The same as \<open>env_distinct\<close>, except that from call number 11 on the JSON of every client has a
  second byte: what the clients point to has changed.
\<close>

definition env_changing :: env where
  "env_changing =
     env_distinct\<lparr>json_Marshal := (\<lambda>t p. if t < 11 then [of_nat p] else [of_nat p, 1])\<rparr>"

text \<open>A state with one connection in use, none free and capacity 2.\<close>

definition pool_low :: ConnPool where
  "pool_low =
     \<lparr>connectionsInUse = fmupd 0 \<lparr>db = 0, creationTime = 6\<rparr> fmempty,
      freeConnections = fmempty,
      poolSize = 2, connStr = ''db'', expiry = 300000000000\<rparr>"

text \<open>
  An environment whose clock has been set back by 400 seconds after its first reading, and in
  which every \<^verbatim>\<open>Disconnect\<close> fails.
\<close>

definition env_clock_back :: env where
  "env_clock_back =
     env_distinct
       \<lparr>time_Now_UnixNano := (\<lambda>t. if t = 0 then 1700000400000000000 else 1700000000000000000),
        client_Disconnect := (\<lambda>t p. Some (External ''client is disconnected''))\<rparr>"

section \<open>Lemmas\<close>

subsection \<open>Maps, traces and the fill loops\<close>

lemma len_nonneg: "0 \<le> len m"
  by (simp add: len_def)

lemma len_fmempty: "len fmempty = 0"
  by (simp add: len_def)

lemma len_eq_0: "len m = 0 \<longleftrightarrow> m = fmempty"
proof
  assume "len m = 0"
  then have "fmdom m = {||}" by (simp add: len_def)
  then show "m = fmempty" by (intro fmap_ext) (simp add: fmdom_notD)
qed (simp add: len_fmempty)

lemma len_fmupd: "len (fmupd k v m) = (if k |\<in>| fmdom m then len m else len m + 1)"
  by (simp add: len_def fcard_finsert_if)

lemma len_fmdrop: "len (fmdrop k m) = (if k |\<in>| fmdom m then len m - 1 else len m)"
proof (cases "k |\<in>| fmdom m")
  case True
  then have "Suc (fcard (fmdom m |-| {|k|})) = fcard (fmdom m)"
    by (rule fcard_Suc_fminus1)
  then show ?thesis using True by (simp add: len_def)
next
  case False
  then show ?thesis by (simp add: len_def)
qed

lemma fmdrop_absent: "k |\<notin>| fmdom m \<Longrightarrow> fmdrop k m = m"
  by (intro fmap_ext) (auto simp: fmdom_notD)

lemma set_range_keys: "set (range_keys E tr m) = fset (fmdom m)"
  by (simp add: range_keys_def)

lemma creations_append: "creations (evs @ tr) = creations evs @ creations tr"
  by (induction evs rule: creations.induct) simp_all

lemma disconnects_append: "disconnects (evs @ tr) = disconnects evs @ disconnects tr"
  by (induction evs rule: disconnects.induct) simp_all

lemma createConnections_cases:
  assumes "createConnections E c tr = (r, c', tr')"
  shows "(\<exists>e evs. r = Some (Errorf ''error at creating the connection pool'' e) \<and> c' = c \<and>
            tr' = evs @ tr) \<or>
         (\<exists>cl t. r = None \<and>
            mongo_NewClient E (length tr) (connStr c) = Inr cl \<and>
            client_Connect E (Suc (length tr)) cl = None \<and>
            t = time_Now_UnixNano E (Suc (Suc (length tr))) \<and>
            tr' = [EvNow t, EvConnect cl None, EvNewClient (connStr c) (Inr cl)] @ tr \<and>
            c' = c\<lparr>freeConnections := fmupd (hash E tr' cl) \<lparr>db = cl, creationTime = t\<rparr> (freeConnections c)\<rparr>)"
  using assms
  by (auto simp: createConnections_def create_def validate_def time_Now_def Let_def
      split: prod.splits sum.splits option.splits)

lemma createConnections_ok:
  assumes "mongo_NewClient E (length tr) (connStr c) = Inr cl"
    and "client_Connect E (Suc (length tr)) cl = None"
  shows "createConnections E c tr =
           (None,
            c\<lparr>freeConnections :=
                 fmupd (hash E (EvNow (time_Now_UnixNano E (Suc (Suc (length tr)))) # EvConnect cl None # EvNewClient (connStr c) (Inr cl) # tr) cl)
                   \<lparr>db = cl, creationTime = time_Now_UnixNano E (Suc (Suc (length tr)))\<rparr> (freeConnections c)\<rparr>,
            EvNow (time_Now_UnixNano E (Suc (Suc (length tr)))) # EvConnect cl None # EvNewClient (connStr c) (Inr cl) # tr)"
  using assms
  by (simp add: createConnections_def create_def validate_def time_Now_def Let_def)

lemma step_ok_refl: "step_ok E c tr c tr"
  by (simp add: step_ok_def)

lemma step_ok_trans:
  assumes "step_ok E c tr c1 tr1" and "step_ok E c1 tr1 c2 tr2"
  shows "step_ok E c tr c2 tr2"
proof -
  from assms(1) obtain evs1 where e1: "tr1 = evs1 @ tr"
    and f1: "\<And>k v. fmlookup (freeConnections c1) k = Some v \<Longrightarrow>
           fmlookup (freeConnections c) k = Some v \<or>
           db v \<in> set (creations evs1) \<and> (\<exists>tr''. k = hash E tr'' (db v))"
    unfolding step_ok_def by blast
  from assms(2) obtain evs2 where e2: "tr2 = evs2 @ tr1"
    and f2: "\<And>k v. fmlookup (freeConnections c2) k = Some v \<Longrightarrow>
           fmlookup (freeConnections c1) k = Some v \<or>
           db v \<in> set (creations evs2) \<and> (\<exists>tr''. k = hash E tr'' (db v))"
    unfolding step_ok_def by blast
  have "tr2 = (evs2 @ evs1) @ tr" using e1 e2 by simp
  moreover have "fmlookup (freeConnections c2) k = Some v \<Longrightarrow>
           fmlookup (freeConnections c) k = Some v \<or>
           db v \<in> set (creations (evs2 @ evs1)) \<and> (\<exists>tr''. k = hash E tr'' (db v))" for k v
    using f1[of k v] f2[of k v] by (auto simp: creations_append)
  ultimately have "\<exists>evs. tr2 = evs @ tr \<and>
        (\<forall>k v. fmlookup (freeConnections c2) k = Some v \<longrightarrow>
           fmlookup (freeConnections c) k = Some v \<or>
           db v \<in> set (creations evs) \<and> (\<exists>tr''. k = hash E tr'' (db v)))"
    by blast
  moreover have "fmdom (freeConnections c) |\<subseteq>| fmdom (freeConnections c2)"
    using assms unfolding step_ok_def by blast
  ultimately show ?thesis
    using assms unfolding step_ok_def by simp
qed

lemma createConnections_step_ok:
  assumes "createConnections E c tr = (r, c', tr')"
  shows "step_ok E c tr c' tr'"
  using createConnections_cases[OF assms]
  by (auto simp: step_ok_def)

lemma fill_first_repeat:
  "fill_first E i c tr = repeat_create E (nat (poolSize c - i)) c tr"
proof (induction E i c tr rule: fill_first.induct)
  case (1 E i c tr)
  show ?case
  proof (cases "i < poolSize c")
    case False
    then show ?thesis by (simp add: fill_first.simps)
  next
    case True
    then have n: "nat (poolSize c - i) = Suc (nat (poolSize c - (i + 1)))" by simp
    obtain r1 c1 tr1 where cc: "createConnections E c tr = (r1, c1, tr1)"
      by (metis prod.collapse)
    have ps: "poolSize c1 = poolSize c"
      using createConnections_step_ok[OF cc] by (simp add: step_ok_def)
    show ?thesis
    proof (cases r1)
      case (Some err)
      then show ?thesis using True cc by (subst fill_first.simps, subst n) simp
    next
      case None
      have "fill_first E (i + 1) c1 tr1 = repeat_create E (nat (poolSize c1 - (i + 1))) c1 tr1"
        by (rule "1.IH"[OF True cc[symmetric] None refl])
      then show ?thesis using True cc None ps by (subst fill_first.simps, subst n) simp
    qed
  qed
qed

lemma fill_difference_repeat:
  "fill_difference E i c tr = repeat_create E (nat (poolSize c + 1 - i)) c tr"
proof (induction E i c tr rule: fill_difference.induct)
  case (1 E i c tr)
  show ?case
  proof (cases "i \<le> poolSize c")
    case False
    then show ?thesis by (simp add: fill_difference.simps)
  next
    case True
    then have n: "nat (poolSize c + 1 - i) = Suc (nat (poolSize c + 1 - (i + 1)))" by simp
    obtain r1 c1 tr1 where cc: "createConnections E c tr = (r1, c1, tr1)"
      by (metis prod.collapse)
    have ps: "poolSize c1 = poolSize c"
      using createConnections_step_ok[OF cc] by (simp add: step_ok_def)
    show ?thesis
    proof (cases r1)
      case (Some err)
      then show ?thesis using True cc by (subst fill_difference.simps, subst n) simp
    next
      case None
      have "fill_difference E (i + 1) c1 tr1 = repeat_create E (nat (poolSize c1 + 1 - (i + 1))) c1 tr1"
        by (rule "1.IH"[OF True cc[symmetric] None refl])
      then show ?thesis using True cc None ps by (subst fill_difference.simps, subst n) simp
    qed
  qed
qed

lemma repeat_create_step_ok:
  "repeat_create E n c tr = (r, c', tr') \<Longrightarrow> step_ok E c tr c' tr'"
proof (induction n arbitrary: c tr)
  case 0
  then show ?case by (simp add: step_ok_refl)
next
  case (Suc n)
  obtain r1 c1 tr1 where cc: "createConnections E c tr = (r1, c1, tr1)"
    by (metis prod.collapse)
  note s1 = createConnections_step_ok[OF cc]
  show ?case
  proof (cases r1)
    case (Some err)
    with Suc.prems cc s1 show ?thesis by simp
  next
    case None
    with Suc.prems cc have "repeat_create E n c1 tr1 = (r, c', tr')" by simp
    then have "step_ok E c1 tr1 c' tr'" by (rule Suc.IH)
    with s1 show ?thesis by (rule step_ok_trans)
  qed
qed

lemma some_call_fails_append:
  "some_call_fails E n (evs2 @ evs1) =
     (some_call_fails E (n + length evs1) evs2 \<or> some_call_fails E n evs1)"
  by (induction evs2) (simp_all add: ac_simps)

lemma createConnections_fails:
  assumes "createConnections E c tr = (r, c', tr')"
  shows "\<exists>evs. tr' = evs @ tr \<and> connStr c' = connStr c \<and>
           (r = None \<longrightarrow> \<not> some_call_fails E (length tr) evs) \<and>
           (\<forall>err. r = Some err \<longrightarrow> wraps_failure E (connStr c) (length tr' - 1) err)"
proof (cases "mongo_NewClient E (length tr) (connStr c)")
  case (Inl x)
  with assms show ?thesis
    by (auto simp: createConnections_def create_def Let_def wraps_failure_def)
next
  case (Inr cl)
  show ?thesis
  proof (cases "client_Connect E (Suc (length tr)) cl")
    case None
    with assms Inr show ?thesis
      by (auto simp: createConnections_def create_def validate_def time_Now_def Let_def
          intro!: exI[of _ "[EvNow t, EvConnect cl None, EvNewClient (connStr c) (Inr cl)]" for t])
  next
    case (Some x)
    with assms Inr show ?thesis
      by (auto simp: createConnections_def create_def validate_def Let_def wraps_failure_def)
  qed
qed

lemma repeat_create_fails:
  "repeat_create E k c tr = (r, c', tr') \<Longrightarrow>
     \<exists>evs. tr' = evs @ tr \<and> connStr c' = connStr c \<and>
       (r = None \<longrightarrow> \<not> some_call_fails E (length tr) evs) \<and>
       (\<forall>err. r = Some err \<longrightarrow> wraps_failure E (connStr c) (length tr' - 1) err)"
proof (induction k arbitrary: c tr)
  case 0
  then show ?case by simp
next
  case (Suc k)
  obtain r1 c1 tr1 where cc: "createConnections E c tr = (r1, c1, tr1)"
    by (metis prod.collapse)
  from createConnections_fails[OF cc] obtain evs1 where e1: "tr1 = evs1 @ tr"
    and s1: "connStr c1 = connStr c"
    and n1: "r1 = None \<longrightarrow> \<not> some_call_fails E (length tr) evs1"
    and w1: "\<forall>err. r1 = Some err \<longrightarrow> wraps_failure E (connStr c) (length tr1 - 1) err"
    by blast
  show ?case
  proof (cases r1)
    case (Some err)
    with Suc.prems cc have "r = Some err" "c' = c1" "tr' = tr1" by simp_all
    with e1 s1 w1 Some show ?thesis by simp
  next
    case None
    with Suc.prems cc have "repeat_create E k c1 tr1 = (r, c', tr')" by simp
    from Suc.IH[OF this] obtain evs2 where e2: "tr' = evs2 @ tr1"
      and s2: "connStr c' = connStr c1"
      and n2: "r = None \<longrightarrow> \<not> some_call_fails E (length tr1) evs2"
      and w2: "\<forall>err. r = Some err \<longrightarrow> wraps_failure E (connStr c1) (length tr' - 1) err"
      by blast
    have "tr' = (evs2 @ evs1) @ tr" using e1 e2 by simp
    moreover have "r = None \<longrightarrow> \<not> some_call_fails E (length tr) (evs2 @ evs1)"
      using n1 n2 None e1 by (simp add: some_call_fails_append ac_simps)
    ultimately show ?thesis using s1 s2 w2 by metis
  qed
qed

lemma total_createConnections:
  assumes "createConnections E c tr = (r, c', tr')"
  shows "live_count c' \<le> live_count c + 1"
  using createConnections_cases[OF assms]
  by (auto simp: live_count_def len_fmupd)

lemma repeat_create_total:
  "repeat_create E n c tr = (r, c', tr') \<Longrightarrow> live_count c' \<le> live_count c + int n"
proof (induction n arbitrary: c tr)
  case 0
  then show ?case by simp
next
  case (Suc n)
  obtain r1 c1 tr1 where cc: "createConnections E c tr = (r1, c1, tr1)"
    by (metis prod.collapse)
  note t1 = total_createConnections[OF cc]
  show ?case
  proof (cases r1)
    case (Some e1)
    with Suc.prems cc t1 show ?thesis by simp
  next
    case None
    with Suc.prems cc have "repeat_create E n c1 tr1 = (r, c', tr')" by simp
    then have "live_count c' \<le> live_count c1 + int n" by (rule Suc.IH)
    with t1 show ?thesis by simp
  qed
qed

subsection \<open>The scan\<close>

lemma scan_Cons_cases [consumes 1, case_names skip closing_failed discarded selected]:
  assumes "scan E now (k # ks) c tr = (r, c', tr')"
  obtains
    (skip) "fmlookup (freeConnections c) k = None" "scan E now ks c tr = (r, c', tr')"
  | (closing_failed) v evs err where
      "fmlookup (freeConnections c) k = Some v"
      "r = Some (Inl (Errorf ''error while closing the connection'' err))"
      "c' = c\<lparr>freeConnections := fmdrop k (freeConnections c)\<rparr>"
      "tr' = evs @ tr" "creations evs = []" "db v \<in> set (disconnects evs)"
  | (discarded) v evs where
      "fmlookup (freeConnections c) k = Some v"
      "creations evs = []" "db v \<in> set (disconnects evs)"
      "scan E now ks (c\<lparr>freeConnections := fmdrop k (freeConnections c)\<rparr>) (evs @ tr) = (r, c', tr')"
  | (selected) v where
      "fmlookup (freeConnections c) k = Some v"
      "\<not> expired now v (expiry c)"
      "client_Connect E (length tr) (db v) = None"
      "r = Some (Inr (db v))"
      "c' = c\<lparr>freeConnections := fmdrop k (freeConnections c),
               connectionsInUse := fmupd k (v\<lparr>creationTime := now\<rparr>) (connectionsInUse c)\<rparr>"
      "tr' = EvConnect (db v) None # tr"
proof (cases "fmlookup (freeConnections c) k")
  case None
  with assms skip show ?thesis by simp
next
  case (Some v)
  show ?thesis
  proof (cases "expired now v (expiry c)")
    case True
    show ?thesis
    proof (cases "client_Disconnect E (length tr) (db v)")
      case None
      with assms Some True
      have "scan E now ks (c\<lparr>freeConnections := fmdrop k (freeConnections c)\<rparr>)
              ([EvDisconnect (db v) None] @ tr) = (r, c', tr')"
        by (simp add: kill_def Let_def)
      with Some show ?thesis by (intro discarded[of v "[EvDisconnect (db v) None]"]) simp_all
    next
      case (Some err)
      with assms \<open>fmlookup (freeConnections c) k = Some v\<close> True
      show ?thesis
        by (intro closing_failed[of v err "[EvDisconnect (db v) (Some err)]"])
           (simp_all add: kill_def Let_def)
    qed
  next
    case False
    show ?thesis
    proof (cases "client_Connect E (length tr) (db v)")
      case None
      with assms Some False show ?thesis
        by (intro selected[of v]) (simp_all add: validate_def Let_def)
    next
      case (Some verr)
      note bad = this
      show ?thesis
      proof (cases "client_Disconnect E (Suc (length tr)) (db v)")
        case None
        with assms \<open>fmlookup (freeConnections c) k = Some v\<close> False bad
        have "scan E now ks (c\<lparr>freeConnections := fmdrop k (freeConnections c)\<rparr>)
                ([EvDisconnect (db v) None, EvConnect (db v) (Some verr)] @ tr) = (r, c', tr')"
          by (simp add: kill_def validate_def Let_def)
        with \<open>fmlookup (freeConnections c) k = Some v\<close> show ?thesis
          by (intro discarded[of v "[EvDisconnect (db v) None, EvConnect (db v) (Some verr)]"]) simp_all
      next
        case (Some err)
        with assms \<open>fmlookup (freeConnections c) k = Some v\<close> False bad
        show ?thesis
          by (intro closing_failed[of v err "[EvDisconnect (db v) (Some err), EvConnect (db v) (Some verr)]"])
             (simp_all add: kill_def validate_def Let_def)
      qed
    qed
  qed
qed

lemma scan_frame:
  "scan E now ks c tr = (r, c', tr') \<Longrightarrow>
     poolSize c' = poolSize c \<and> connStr c' = connStr c \<and> expiry c' = expiry c \<and>
     (\<forall>k v. fmlookup (freeConnections c') k = Some v \<longrightarrow> fmlookup (freeConnections c) k = Some v) \<and>
     (\<exists>evs. tr' = evs @ tr \<and> creations evs = [])"
proof (induction ks arbitrary: c tr)
  case Nil
  then show ?case by simp
next
  case (Cons k ks)
  from Cons.prems show ?case
  proof (cases rule: scan_Cons_cases)
    case skip
    from Cons.IH[OF skip(2)] show ?thesis .
  next
    case (closing_failed v evs err)
    then show ?thesis by auto
  next
    case (discarded v evs)
    let ?c = "c\<lparr>freeConnections := fmdrop k (freeConnections c)\<rparr>"
    from Cons.IH[OF discarded(4)] obtain evs' where
      fr: "poolSize c' = poolSize c" "connStr c' = connStr c" "expiry c' = expiry c"
      and lk: "\<And>k' v'. fmlookup (freeConnections c') k' = Some v' \<Longrightarrow>
                 fmlookup (freeConnections ?c) k' = Some v'"
      and ev: "tr' = evs' @ evs @ tr" "creations evs' = []"
      by auto
    have "fmlookup (freeConnections c) k' = Some v'"
      if "fmlookup (freeConnections c') k' = Some v'" for k' v'
      using lk[OF that] by (simp split: if_splits)
    moreover have "tr' = (evs' @ evs) @ tr \<and> creations (evs' @ evs) = []"
      using ev discarded(2) by (simp add: creations_append)
    ultimately show ?thesis using fr by blast
  next
    case (selected v)
    then show ?thesis by auto
  qed
qed

lemma scan_None:
  "scan E now ks c tr = (None, c', tr') \<Longrightarrow>
     connectionsInUse c' = connectionsInUse c \<and>
     fmdom (freeConnections c') = fmdom (freeConnections c) |-| fset_of_list ks"
proof (induction ks arbitrary: c tr)
  case Nil
  then show ?case by simp
next
  case (Cons k ks)
  from Cons.prems show ?case
  proof (cases rule: scan_Cons_cases)
    case skip
    from Cons.IH[OF skip(2)] skip(1) show ?thesis
      by (auto simp: fmdom_notI)
  next
    case (discarded v evs)
    from Cons.IH[OF discarded(4)] show ?thesis by auto
  qed simp_all
qed

lemma scan_Inl:
  "scan E now ks c tr = (Some (Inl err), c', tr') \<Longrightarrow>
     connectionsInUse c' = connectionsInUse c \<and>
     (\<exists>e. err = Errorf ''error while closing the connection'' e)"
proof (induction ks arbitrary: c tr)
  case Nil
  then show ?case by simp
next
  case (Cons k ks)
  from Cons.prems show ?case
  proof (cases rule: scan_Cons_cases)
    case skip
    from Cons.IH[OF skip(2)] show ?thesis .
  next
    case (discarded v evs)
    from Cons.IH[OF discarded(4)] show ?thesis by simp
  qed simp_all
qed

lemma scan_Inr:
  "scan E now ks c tr = (Some (Inr p), c', tr') \<Longrightarrow>
     \<exists>k v. k \<in> set ks \<and> fmlookup (freeConnections c) k = Some v \<and> db v = p \<and>
       \<not> expired now v (expiry c) \<and>
       connectionsInUse c' = fmupd k (v\<lparr>creationTime := now\<rparr>) (connectionsInUse c) \<and>
       k |\<notin>| fmdom (freeConnections c')"
proof (induction ks arbitrary: c tr)
  case Nil
  then show ?case by simp
next
  case (Cons k ks)
  from Cons.prems show ?case
  proof (cases rule: scan_Cons_cases)
    case skip
    from Cons.IH[OF skip(2)] show ?thesis by auto
  next
    case (closing_failed v evs err)
    then show ?thesis by simp
  next
    case (discarded v evs)
    from Cons.IH[OF discarded(4)] show ?thesis
      by (auto split: if_splits)
  next
    case (selected v)
    then show ?thesis by auto
  qed
qed

lemma scan_total:
  "scan E now ks c tr = (r, c', tr') \<Longrightarrow> live_count c' \<le> live_count c"
proof (induction ks arbitrary: c tr)
  case Nil
  then show ?case by simp
next
  case (Cons k ks)
  from Cons.prems show ?case
  proof (cases rule: scan_Cons_cases)
    case skip
    from Cons.IH[OF skip(2)] show ?thesis .
  next
    case (closing_failed v evs err)
    then show ?thesis by (simp add: live_count_def len_fmdrop)
  next
    case (discarded v evs)
    from Cons.IH[OF discarded(4)] show ?thesis
      by (simp add: live_count_def len_fmdrop split: if_splits)
  next
    case (selected v)
    then have "k |\<in>| fmdom (freeConnections c)" by (simp add: fmdomI)
    with selected show ?thesis by (simp add: live_count_def len_fmdrop len_fmupd)
  qed
qed

lemma scan_disjoint:
  "scan E now ks c tr = (r, c', tr') \<Longrightarrow>
     fmdom (freeConnections c) |\<inter>| fmdom (connectionsInUse c) = {||} \<Longrightarrow>
     fmdom (freeConnections c') |\<inter>| fmdom (connectionsInUse c') = {||}"
proof (induction ks arbitrary: c tr)
  case Nil
  then show ?case by simp
next
  case (Cons k ks)
  from Cons.prems(1) show ?case
  proof (cases rule: scan_Cons_cases)
    case skip
    from Cons.IH[OF skip(2) Cons.prems(2)] show ?thesis .
  next
    case (closing_failed v evs err)
    with Cons.prems(2) show ?thesis by auto
  next
    case (discarded v evs)
    have "fmdom (freeConnections (c\<lparr>freeConnections := fmdrop k (freeConnections c)\<rparr>)) |\<inter>|
          fmdom (connectionsInUse (c\<lparr>freeConnections := fmdrop k (freeConnections c)\<rparr>)) = {||}"
      using Cons.prems(2) by auto
    from Cons.IH[OF discarded(4) this] show ?thesis .
  next
    case (selected v)
    with Cons.prems(2) show ?thesis by auto
  qed
qed

subsection \<open>The phases of Checkout\<close>

lemma Checkout_fill_cases [consumes 1, case_names first_failed difference_failed filled]:
  assumes "Checkout_fill E c tr = (r, c', tr')"
  obtains
    (first_failed) err where
      "freeConnections c = fmempty" "connectionsInUse c = fmempty"
      "repeat_create E (nat (poolSize c)) c tr = (Some err, c', tr')" "r = Inl err"
  | (difference_failed) err c1 tr1 where
      "repeat_create E (if freeConnections c = fmempty \<and> connectionsInUse c = fmempty
                        then nat (poolSize c) else 0) c tr = (None, c1, tr1)"
      "repeat_create E (nat (poolSize c1 + 1 - live_count c1)) c1
         (EvNow (time_Now_UnixNano E (length tr1)) # tr1) = (Some err, c', tr')"
      "r = Inl err"
  | (filled) c1 tr1 where
      "repeat_create E (if freeConnections c = fmempty \<and> connectionsInUse c = fmempty
                        then nat (poolSize c) else 0) c tr = (None, c1, tr1)"
      "repeat_create E (nat (poolSize c1 + 1 - live_count c1)) c1
         (EvNow (time_Now_UnixNano E (length tr1)) # tr1) = (None, c', tr')"
      "r = Inr (time_Now_UnixNano E (length tr1))"
proof -
  let ?n = "if freeConnections c = fmempty \<and> connectionsInUse c = fmempty then nat (poolSize c) else 0"
  obtain r1 c1 tr1 where f1: "repeat_create E ?n c tr = (r1, c1, tr1)"
    by (metis prod.collapse)
  have first: "(if len (freeConnections c) = 0 \<and> len (connectionsInUse c) = 0
                then fill_first E 0 c tr else (None, c, tr)) = (r1, c1, tr1)"
    using f1 by (auto simp: len_eq_0 fill_first_repeat)
  show ?thesis
  proof (cases r1)
    case (Some err)
    then have "freeConnections c = fmempty \<and> connectionsInUse c = fmempty"
      using f1 by (auto split: if_splits)
    moreover from Some first assms have "r = Inl err" "c' = c1" "tr' = tr1"
      by (simp_all add: Checkout_fill_def)
    ultimately show ?thesis using f1 Some first_failed by simp
  next
    case None
    let ?tr2 = "EvNow (time_Now_UnixNano E (length tr1)) # tr1"
    obtain r3 c3 tr3 where f3: "repeat_create E (nat (poolSize c1 + 1 - live_count c1)) c1 ?tr2 = (r3, c3, tr3)"
      by (metis prod.collapse)
    then have d: "fill_difference E (len (freeConnections c1) + len (connectionsInUse c1)) c1 ?tr2 = (r3, c3, tr3)"
      by (simp add: fill_difference_repeat live_count_def)
    show ?thesis
    proof (cases r3)
      case (Some err)
      with None first d assms have "r = Inl err" "c' = c3" "tr' = tr3"
        by (simp_all add: Checkout_fill_def time_Now_def Let_def)
      with f1 f3 None Some difference_failed show ?thesis by simp
    next
      case None3: None
      with None first d assms have "r = Inr (time_Now_UnixNano E (length tr1))" "c' = c3" "tr' = tr3"
        by (simp_all add: Checkout_fill_def time_Now_def Let_def)
      with f1 f3 None None3 filled show ?thesis by simp
    qed
  qed
qed

lemma step_ok_Now: "step_ok E c tr c (EvNow t # tr)"
  by (auto simp: step_ok_def intro!: exI[of _ "[EvNow t]"])

lemma Checkout_fill_step_ok:
  assumes "Checkout_fill E c tr = (r, c', tr')"
  shows "step_ok E c tr c' tr'"
  using assms
proof (cases rule: Checkout_fill_cases)
  case (first_failed err)
  then show ?thesis by (auto dest: repeat_create_step_ok)
next
  case (difference_failed err c1 tr1)
  from repeat_create_step_ok[OF difference_failed(1)] step_ok_Now
  have "step_ok E c tr c1 (EvNow (time_Now_UnixNano E (length tr1)) # tr1)"
    by (rule step_ok_trans)
  then show ?thesis using repeat_create_step_ok[OF difference_failed(2)] by (rule step_ok_trans)
next
  case (filled c1 tr1)
  from repeat_create_step_ok[OF filled(1)] step_ok_Now
  have "step_ok E c tr c1 (EvNow (time_Now_UnixNano E (length tr1)) # tr1)"
    by (rule step_ok_trans)
  then show ?thesis using repeat_create_step_ok[OF filled(2)] by (rule step_ok_trans)
qed

lemma Checkout_fill_fails:
  assumes run: "Checkout_fill E c tr = (r, c', tr')"
  shows "\<exists>evs. tr' = evs @ tr \<and>
           ((\<exists>now. r = Inr now) \<longrightarrow> \<not> some_call_fails E (length tr) evs) \<and>
           (\<forall>err. r = Inl err \<longrightarrow> wraps_failure E (connStr c) (length tr' - 1) err)"
  using run
proof (cases rule: Checkout_fill_cases)
  case (first_failed err)
  from repeat_create_fails[OF first_failed(3)] first_failed(4) show ?thesis by auto
next
  case (difference_failed err c1 tr1)
  from repeat_create_fails[OF difference_failed(1)] obtain evs1 where
    e1: "tr1 = evs1 @ tr" and s1: "connStr c1 = connStr c" by blast
  from repeat_create_fails[OF difference_failed(2)] obtain evs3 where
    e3: "tr' = evs3 @ EvNow (time_Now_UnixNano E (length tr1)) # tr1"
    and w3: "wraps_failure E (connStr c1) (length tr' - 1) err" by auto
  from e1 e3 have "tr' = (evs3 @ EvNow (time_Now_UnixNano E (length tr1)) # evs1) @ tr" by simp
  with w3 s1 difference_failed(3) show ?thesis by auto
next
  case (filled c1 tr1)
  from repeat_create_fails[OF filled(1)] obtain evs1 where
    e1: "tr1 = evs1 @ tr" and n1: "\<not> some_call_fails E (length tr) evs1" by auto
  let ?tr2 = "EvNow (time_Now_UnixNano E (length tr1)) # tr1"
  from repeat_create_fails[OF filled(2)] obtain evs3 where
    e3: "tr' = evs3 @ ?tr2"
    and n3: "\<not> some_call_fails E (length ?tr2) evs3" by auto
  let ?evs = "evs3 @ EvNow (time_Now_UnixNano E (length tr1)) # evs1"
  from e1 e3 have "tr' = ?evs @ tr" by simp
  moreover have "\<not> some_call_fails E (length tr) ?evs"
    using n1 n3 e1 by (simp add: some_call_fails_append ac_simps)
  ultimately show ?thesis using filled(3) by blast
qed

lemma Checkout_fill_now:
  assumes "Checkout_fill E c tr = (Inr now, c', tr')"
    and "freeConnections c \<noteq> fmempty \<or> connectionsInUse c \<noteq> fmempty"
  shows "now = time_Now_UnixNano E (length tr)"
  using assms
  by (cases rule: Checkout_fill_cases) (auto split: if_splits)

lemma Checkout_fill_total:
  assumes "Checkout_fill E c tr = (r, c', tr')"
  shows "live_count c' \<le> max (live_count c) (poolSize c + 1)"
  using assms
proof (cases rule: Checkout_fill_cases)
  case (first_failed err)
  from repeat_create_total[OF first_failed(3)] first_failed(1,2)
  show ?thesis by (auto simp: live_count_def len_fmempty max_def split: if_splits)
next
  case (difference_failed err c1 tr1)
  have ps: "poolSize c1 = poolSize c"
    using repeat_create_step_ok[OF difference_failed(1)] by (simp add: step_ok_def)
  from repeat_create_total[OF difference_failed(1)]
  have "live_count c1 \<le> max (live_count c) (poolSize c)"
    by (auto simp: live_count_def len_fmempty split: if_splits)
  with repeat_create_total[OF difference_failed(2)] ps show ?thesis
    by (simp add: max_def split: if_splits)
next
  case (filled c1 tr1)
  have ps: "poolSize c1 = poolSize c"
    using repeat_create_step_ok[OF filled(1)] by (simp add: step_ok_def)
  from repeat_create_total[OF filled(1)]
  have "live_count c1 \<le> max (live_count c) (poolSize c)"
    by (auto simp: live_count_def len_fmempty split: if_splits)
  with repeat_create_total[OF filled(2)] ps show ?thesis
    by (simp add: max_def split: if_splits)
qed

lemma fset_of_list_range_keys: "fset_of_list (range_keys E tr m) = fmdom m"
  by (rule fset_eqI) (simp add: fset_of_list_elem range_keys_def)

lemma Checkout_scan_None:
  assumes "Checkout_scan E now c tr = (None, c', tr')"
  shows "freeConnections c' = fmempty \<and> connectionsInUse c' = connectionsInUse c"
proof (cases "len (freeConnections c) > 0")
  case True
  with assms have "scan E now (range_keys E tr (freeConnections c)) c tr = (None, c', tr')"
    by (simp add: Checkout_scan_def)
  from scan_None[OF this] have "connectionsInUse c' = connectionsInUse c"
    and "fmdom (freeConnections c') = {||}"
    by (simp_all add: fset_of_list_range_keys)
  then show ?thesis by (simp add: len_eq_0[symmetric] len_def)
next
  case False
  with len_nonneg[of "freeConnections c"] have "len (freeConnections c) = 0" by simp
  with assms False show ?thesis by (simp add: Checkout_scan_def len_eq_0)
qed

lemma Checkout_scan_scan:
  assumes "Checkout_scan E now c tr = (r, c', tr')"
  shows "\<exists>ks. scan E now ks c tr = (r, c', tr')"
proof (cases "len (freeConnections c) > 0")
  case True
  with assms show ?thesis by (auto simp: Checkout_scan_def)
next
  case False
  with assms have "scan E now [] c tr = (r, c', tr')" by (simp add: Checkout_scan_def)
  then show ?thesis ..
qed

lemma Checkout_miss_cases [consumes 1, case_names failed created]:
  assumes "Checkout_miss E now c tr = (r, c', tr')"
  obtains
    (failed) e where "r = Inl (Errorf ''error while creating the connection'' e)" "c' = c"
      "\<exists>evs. tr' = evs @ tr"
  | (created) cl where "r = Inr cl" "mongo_NewClient E (length tr) (connStr c) = Inr cl"
      "tr' = EvNewClient (connStr c) (Inr cl) # tr"
      "c' = c\<lparr>connectionsInUse :=
                fmupd (hash E tr' cl) \<lparr>db = cl, creationTime = now\<rparr> (connectionsInUse c)\<rparr>"
proof (cases "mongo_NewClient E (length tr) (connStr c)")
  case (Inl e)
  with assms have "r = Inl (Errorf ''error while creating the connection'' (Errorf ''error at mongo db creation'' e))"
    "c' = c" "tr' = [EvNewClient (connStr c) (Inl e)] @ tr"
    by (auto simp add: Checkout_miss_def create_def Let_def)
  then show ?thesis using failed by blast
next
  case (Inr cl)
  with assms have "r = Inr cl" "tr' = EvNewClient (connStr c) (Inr cl) # tr"
    "c' = c\<lparr>connectionsInUse :=
                fmupd (hash E tr' cl) \<lparr>db = cl, creationTime = now\<rparr> (connectionsInUse c)\<rparr>"
    by (auto simp add: Checkout_miss_def create_def Let_def)
  with Inr show ?thesis using created by blast
qed

lemma Checkout_cases [consumes 1, case_names fill_failed scanned missed]:
  assumes "Checkout E c tr = (r, c', tr')"
  obtains
    (fill_failed) err where "Checkout_fill E c tr = (Inl err, c', tr')" "r = Inl err"
  | (scanned) now c3 tr3 where "Checkout_fill E c tr = (Inr now, c3, tr3)"
      "Checkout_scan E now c3 tr3 = (Some r, c', tr')"
  | (missed) now c3 tr3 c4 tr4 where "Checkout_fill E c tr = (Inr now, c3, tr3)"
      "Checkout_scan E now c3 tr3 = (None, c4, tr4)"
      "Checkout_miss E now c4 tr4 = (r, c', tr')"
  using assms
  by (auto simp: Checkout_def split: prod.splits sum.splits option.splits)

lemma CheckIn_Some:
  "CheckIn E (Some cl) c tr =
     (if len (freeConnections c) + len (fmdrop (hash E tr cl) (connectionsInUse c)) < poolSize c
      then (None,
            c\<lparr>connectionsInUse := fmdrop (hash E tr cl) (connectionsInUse c),
              freeConnections :=
                fmupd (hash E tr cl) \<lparr>db = cl, creationTime = time_Now_UnixNano E (length tr)\<rparr>
                  (freeConnections c)\<rparr>,
            EvNow (time_Now_UnixNano E (length tr)) # tr)
      else (None, c\<lparr>connectionsInUse := fmdrop (hash E tr cl) (connectionsInUse c)\<rparr>, tr))"
  by (simp add: CheckIn_def Let_def time_Now_def)

subsection \<open>Counts and disjointness\<close>

lemma Checkout_live_count:
  assumes "Checkout E c tr = (r, c', tr')"
  shows "live_count c' \<le> max (live_count c) (poolSize c) + 1"
  using assms
proof (cases rule: Checkout_cases)
  case (fill_failed err)
  from Checkout_fill_total[OF fill_failed(1)] show ?thesis by simp
next
  case (scanned now c3 tr3)
  from Checkout_scan_scan[OF scanned(2)] obtain ks
    where "scan E now ks c3 tr3 = (Some r, c', tr')" ..
  from scan_total[OF this] Checkout_fill_total[OF scanned(1)] show ?thesis by simp
next
  case (missed now c3 tr3 c4 tr4)
  from Checkout_fill_step_ok[OF missed(1)] have "connectionsInUse c3 = connectionsInUse c"
    by (simp add: step_ok_def)
  with Checkout_scan_None[OF missed(2)]
  have c4: "freeConnections c4 = fmempty" "connectionsInUse c4 = connectionsInUse c"
    by simp_all
  have "live_count c' \<le> len (connectionsInUse c) + 1"
    using missed(3) c4
    by (cases rule: Checkout_miss_cases) (auto simp: live_count_def len_fmempty len_fmupd)
  moreover have "len (connectionsInUse c) \<le> live_count c"
    using len_nonneg[of "freeConnections c"] by (simp add: live_count_def)
  ultimately show ?thesis by simp
qed

lemma CheckIn_live_count:
  assumes "CheckIn E (Some p) c tr = (r, c', tr')"
  shows "live_count c' \<le> max (live_count c) (poolSize c)"
    and "hash E tr p |\<in>| fmdom (connectionsInUse c) \<Longrightarrow>
           live_count c' \<le> max (live_count c - 1) (poolSize c)"
  using assms
  by (auto simp: CheckIn_def Let_def time_Now_def live_count_def len_fmupd len_fmdrop
      split: if_splits)

lemma step_ok_disjoint:
  assumes "step_ok E c tr c' tr'" and "disjoint_pool c"
    and "\<forall>cl\<in>set (creations (take (length tr' - length tr) tr')).
           \<forall>tr''. hash E tr'' cl |\<notin>| fmdom (connectionsInUse c)"
  shows "disjoint_pool c'"
proof -
  from assms(1) obtain evs where ev: "tr' = evs @ tr"
    and fr: "\<And>k v. fmlookup (freeConnections c') k = Some v \<Longrightarrow>
           fmlookup (freeConnections c) k = Some v \<or>
           db v \<in> set (creations evs) \<and> (\<exists>tr''. k = hash E tr'' (db v))"
    and iu: "connectionsInUse c' = connectionsInUse c"
    unfolding step_ok_def by blast
  from ev assms(3) have fresh: "\<And>cl tr''. cl \<in> set (creations evs) \<Longrightarrow>
      hash E tr'' cl |\<notin>| fmdom (connectionsInUse c)"
    by simp
  have "k |\<notin>| fmdom (connectionsInUse c)" if "k |\<in>| fmdom (freeConnections c')" for k
  proof -
    from that obtain v where "fmlookup (freeConnections c') k = Some v"
      by (auto simp: fmlookup_dom_iff)
    from fr[OF this] show ?thesis
    proof
      assume "fmlookup (freeConnections c) k = Some v"
      then have "k |\<in>| fmdom (freeConnections c)" by (simp add: fmdomI)
      with assms(2) show ?thesis by (auto simp: disjoint_pool_def)
    next
      assume "db v \<in> set (creations evs) \<and> (\<exists>tr''. k = hash E tr'' (db v))"
      with fresh show ?thesis by blast
    qed
  qed
  with iu show ?thesis by (auto simp: disjoint_pool_def)
qed

lemma Checkout_disjoint:
  assumes co: "Checkout E c tr = (r, c', tr')" and d: "disjoint_pool c"
    and fresh: "\<forall>cl\<in>set (creations (take (length tr' - length tr) tr')).
           \<forall>tr''. hash E tr'' cl |\<notin>| fmdom (connectionsInUse c)"
  shows "disjoint_pool c'"
  using co
proof (cases rule: Checkout_cases)
  case (fill_failed err)
  from step_ok_disjoint[OF Checkout_fill_step_ok[OF fill_failed(1)] d fresh] show ?thesis .
next
  case (scanned now c3 tr3)
  note s3 = Checkout_fill_step_ok[OF scanned(1)]
  from Checkout_scan_scan[OF scanned(2)] obtain ks
    where sc: "scan E now ks c3 tr3 = (Some r, c', tr')" ..
  from scan_frame[OF sc] obtain evs' where e': "tr' = evs' @ tr3" "creations evs' = []" by blast
  from s3 obtain evs where e: "tr3 = evs @ tr" unfolding step_ok_def by blast
  have "creations (take (length tr3 - length tr) tr3) = creations (take (length tr' - length tr) tr')"
    using e e' by (simp add: creations_append)
  with fresh have "\<forall>cl\<in>set (creations (take (length tr3 - length tr) tr3)).
           \<forall>tr''. hash E tr'' cl |\<notin>| fmdom (connectionsInUse c)" by simp
  from step_ok_disjoint[OF s3 d this] have "disjoint_pool c3" .
  with scan_disjoint[OF sc] show ?thesis by (simp add: disjoint_pool_def)
next
  case (missed now c3 tr3 c4 tr4)
  from Checkout_scan_None[OF missed(2)] have "freeConnections c4 = fmempty" by simp
  with missed(3) have "freeConnections c' = fmempty"
    by (cases rule: Checkout_miss_cases) auto
  then show ?thesis by (simp add: disjoint_pool_def)
qed

subsection \<open>What a checkout returns\<close>

lemma Checkout_returns:
  assumes co: "Checkout E c tr = (Inr p, c', tr')"
  shows "p \<in> set (creations (take (length tr' - length tr) tr')) \<or>
      (\<exists>k v. fmlookup (freeConnections c) k = Some v \<and> db v = p \<and>
             \<not> expired (time_Now_UnixNano E (length tr)) v (expiry c))"
  using co
proof (cases rule: Checkout_cases)
  case (fill_failed err)
  then show ?thesis by simp
next
  case (scanned now c3 tr3)
  note s3 = Checkout_fill_step_ok[OF scanned(1)]
  from s3 obtain evs where e: "tr3 = evs @ tr"
    and fr: "\<And>k v. fmlookup (freeConnections c3) k = Some v \<Longrightarrow>
           fmlookup (freeConnections c) k = Some v \<or>
           db v \<in> set (creations evs) \<and> (\<exists>tr''. k = hash E tr'' (db v))"
    and ex: "expiry c3 = expiry c"
    unfolding step_ok_def by blast
  from Checkout_scan_scan[OF scanned(2)] obtain ks
    where sc: "scan E now ks c3 tr3 = (Some (Inr p), c', tr')" ..
  from scan_frame[OF sc] obtain evs' where e': "tr' = evs' @ tr3" by blast
  from scan_Inr[OF sc] obtain k v where kv: "fmlookup (freeConnections c3) k = Some v"
    "db v = p" "\<not> expired now v (expiry c3)" by blast
  from fr[OF kv(1)] show ?thesis
  proof
    assume old: "fmlookup (freeConnections c) k = Some v"
    then have "freeConnections c \<noteq> fmempty" by auto
    with Checkout_fill_now[OF scanned(1)] have "now = time_Now_UnixNano E (length tr)" by simp
    with old kv ex show ?thesis by auto
  next
    assume "db v \<in> set (creations evs) \<and> (\<exists>tr''. k = hash E tr'' (db v))"
    with kv(2) e e' show ?thesis by (simp add: creations_append)
  qed
next
  case (missed now c3 tr3 c4 tr4)
  from Checkout_fill_step_ok[OF missed(1)] obtain evs where e: "tr3 = evs @ tr"
    unfolding step_ok_def by blast
  from Checkout_scan_scan[OF missed(2)] obtain ks
    where "scan E now ks c3 tr3 = (None, c4, tr4)" ..
  from scan_frame[OF this] obtain evs' where e': "tr4 = evs' @ tr3" by blast
  from missed(3) have "tr' = EvNewClient (connStr c4) (Inr p) # tr4"
    by (cases rule: Checkout_miss_cases) auto
  with e e' show ?thesis by simp
qed

lemma scan_expired_head:
  assumes lk: "fmlookup (freeConnections c) k = Some v"
    and ex: "expired now v (expiry c)"
    and sc: "scan E now (k # ks) c tr = (r, c2, tr2)"
  shows "k |\<notin>| fmdom (freeConnections c2) \<and>
         db v \<in> set (disconnects (take (length tr2 - length tr) tr2)) \<and>
         fmlookup (connectionsInUse c2) k = fmlookup (connectionsInUse c) k"
  using sc
proof (cases rule: scan_Cons_cases)
  case skip
  with lk show ?thesis by simp
next
  case (closing_failed v' evs err)
  with lk show ?thesis by simp
next
  case (discarded v' evs)
  let ?c = "c\<lparr>freeConnections := fmdrop k (freeConnections c)\<rparr>"
  from lk discarded(1) have v': "v' = v" by simp
  note fr = scan_frame[OF discarded(4)]
  from fr obtain evs' where e': "tr2 = evs' @ evs @ tr" by auto
  have gone: "k |\<notin>| fmdom (freeConnections c2)"
  proof
    assume "k |\<in>| fmdom (freeConnections c2)"
    then obtain w where "fmlookup (freeConnections c2) k = Some w"
      by (auto simp: fmlookup_dom_iff)
    with fr have "fmlookup (freeConnections ?c) k = Some w" by blast
    then show False by simp
  qed
  have log: "db v \<in> set (disconnects (take (length tr2 - length tr) tr2))"
    using e' discarded(3) v' by (simp add: disconnects_append)
  have keep: "fmlookup (connectionsInUse c2) k = fmlookup (connectionsInUse c) k"
  proof (cases r)
    case None
    with scan_None[OF discarded(4)[unfolded None]] show ?thesis by simp
  next
    case (Some res)
    show ?thesis
    proof (cases res)
      case (Inl e)
      with scan_Inl[OF discarded(4)[unfolded Some Inl]] show ?thesis by simp
    next
      case (Inr q)
      from scan_Inr[OF discarded(4)[unfolded Some Inr]] obtain k' w where
        "fmlookup (freeConnections ?c) k' = Some w"
        "connectionsInUse c2 = fmupd k' (w\<lparr>creationTime := now\<rparr>) (connectionsInUse ?c)"
        by blast
      then show ?thesis by (auto split: if_splits)
    qed
  qed
  from gone log keep show ?thesis by simp
next
  case (selected v')
  with lk ex show ?thesis by simp
qed

subsection \<open>Keys\<close>

lemma stable_hash:
  assumes "stable_json E"
  shows "hash E tr cl = hash E tr' cl"
proof -
  from assms have "json_Marshal E (length tr) cl = json_Marshal E (length tr') cl"
    unfolding stable_json_def by blast
  then show ?thesis by (simp add: hash_def)
qed

lemma keyedI:
  assumes "\<And>k v. fmlookup (freeConnections c) k = Some v \<Longrightarrow> k = hash E [] (db v)"
    and "\<And>k v. fmlookup (connectionsInUse c) k = Some v \<Longrightarrow> k = hash E [] (db v)"
  shows "keyed E c"
  using assms unfolding keyed_def by blast

lemma keyed_free: "keyed E c \<Longrightarrow> fmlookup (freeConnections c) k = Some v \<Longrightarrow> k = hash E [] (db v)"
  unfolding keyed_def by blast

lemma keyed_inUse: "keyed E c \<Longrightarrow> fmlookup (connectionsInUse c) k = Some v \<Longrightarrow> k = hash E [] (db v)"
  unfolding keyed_def by blast

lemma step_ok_keyed:
  assumes "step_ok E c tr c' tr'" and "stable_json E" and "keyed E c"
  shows "keyed E c'"
proof (rule keyedI)
  fix k v assume "fmlookup (freeConnections c') k = Some v"
  with assms(1) have "fmlookup (freeConnections c) k = Some v \<or> (\<exists>tr''. k = hash E tr'' (db v))"
    unfolding step_ok_def by blast
  then show "k = hash E [] (db v)"
    using keyed_free[OF assms(3)] stable_hash[OF assms(2)] by metis
next
  fix k v assume "fmlookup (connectionsInUse c') k = Some v"
  with assms(1) have "fmlookup (connectionsInUse c) k = Some v"
    by (simp add: step_ok_def)
  then show "k = hash E [] (db v)" by (rule keyed_inUse[OF assms(3)])
qed

lemma scan_keyed:
  assumes sc: "scan E now ks c tr = (r, c', tr')" and k: "keyed E c"
  shows "keyed E c' \<and>
         (\<forall>p. r = Some (Inr p) \<longrightarrow>
            (\<exists>v. fmlookup (connectionsInUse c') (hash E [] p) = Some v \<and> db v = p))"
proof -
  have free: "k' = hash E [] (db v')" if "fmlookup (freeConnections c') k' = Some v'" for k' v'
    using scan_frame[OF sc] that keyed_free[OF k] by blast
  show ?thesis
  proof (cases r)
    case None
    with scan_None[OF sc[unfolded None]] free keyed_inUse[OF k] show ?thesis
      by (intro conjI keyedI) auto
  next
    case (Some res)
    show ?thesis
    proof (cases res)
      case (Inl e)
      with scan_Inl[OF sc[unfolded Some Inl]] free keyed_inUse[OF k] Some show ?thesis
        by (intro conjI keyedI) auto
    next
      case (Inr q)
      from scan_Inr[OF sc[unfolded Some Inr]] obtain k0 v0 where
        kv: "fmlookup (freeConnections c) k0 = Some v0" "db v0 = q"
        and iu: "connectionsInUse c' = fmupd k0 (v0\<lparr>creationTime := now\<rparr>) (connectionsInUse c)"
        by blast
      from keyed_free[OF k kv(1)] kv(2) have k0: "k0 = hash E [] q" by simp
      have "k' = hash E [] (db v')" if "fmlookup (connectionsInUse c') k' = Some v'" for k' v'
        using that iu k0 kv(2) keyed_inUse[OF k] by (auto split: if_splits)
      with free have "keyed E c'" by (intro keyedI)
      moreover have "\<exists>v. fmlookup (connectionsInUse c') (hash E [] q) = Some v \<and> db v = q"
        using iu k0 kv(2) by simp
      ultimately show ?thesis using Some Inr by simp
    qed
  qed
qed

lemma Checkout_keyed:
  assumes co: "Checkout E c tr = (r, c', tr')" and st: "stable_json E" and k: "keyed E c"
  shows "keyed E c' \<and>
         (\<forall>p. r = Inr p \<longrightarrow>
            (\<exists>v. fmlookup (connectionsInUse c') (hash E tr2 p) = Some v \<and> db v = p))"
  using co
proof (cases rule: Checkout_cases)
  case (fill_failed err)
  from step_ok_keyed[OF Checkout_fill_step_ok[OF fill_failed(1)] st k] fill_failed(2)
  show ?thesis by simp
next
  case (scanned now c3 tr3)
  note k3 = step_ok_keyed[OF Checkout_fill_step_ok[OF scanned(1)] st k]
  from Checkout_scan_scan[OF scanned(2)] obtain ks
    where "scan E now ks c3 tr3 = (Some r, c', tr')" ..
  from scan_keyed[OF this k3] stable_hash[OF st, of tr2 _ "[]"] show ?thesis by simp
next
  case (missed now c3 tr3 c4 tr4)
  note k3 = step_ok_keyed[OF Checkout_fill_step_ok[OF missed(1)] st k]
  from Checkout_scan_scan[OF missed(2)] obtain ks
    where "scan E now ks c3 tr3 = (None, c4, tr4)" ..
  from scan_keyed[OF this k3] have k4: "keyed E c4" by simp
  from missed(3) show ?thesis
  proof (cases rule: Checkout_miss_cases)
    case (failed e)
    with k4 show ?thesis by simp
  next
    case (created cl)
    have h: "hash E tr' cl = hash E [] cl" "hash E tr2 cl = hash E [] cl"
      using stable_hash[OF st] by blast+
    have "keyed E c'"
      using created(4) h keyed_free[OF k4] keyed_inUse[OF k4]
      by (intro keyedI) (auto split: if_splits)
    moreover have "\<exists>v. fmlookup (connectionsInUse c') (hash E tr2 cl) = Some v \<and> db v = cl"
      using created(4) h by simp
    ultimately show ?thesis using created(1) by simp
  qed
qed

lemma CheckIn_keyed:
  assumes ci: "CheckIn E (Some p) c tr = (r, c', tr')" and st: "stable_json E" and k: "keyed E c"
  shows "keyed E c'"
proof -
  have h: "hash E tr p = hash E [] p" using stable_hash[OF st] by blast
  from ci show ?thesis
    using keyed_free[OF k] keyed_inUse[OF k] h
    by (intro keyedI) (auto simp: CheckIn_def Let_def time_Now_def split: if_splits)
qed

subsection \<open>A checkout of an empty pool\<close>

lemma scan_selects:
  assumes "fmlookup (freeConnections c) k = Some v"
    and "\<not> expired now v (expiry c)"
    and "client_Connect E (length tr) (db v) = None"
  shows "scan E now (k # ks) c tr =
           (Some (Inr (db v)),
            c\<lparr>freeConnections := fmdrop k (freeConnections c),
              connectionsInUse := fmupd k (v\<lparr>creationTime := now\<rparr>) (connectionsInUse c)\<rparr>,
            EvConnect (db v) None # tr)"
  using assms by (simp add: validate_def Let_def)

lemma Checkout_empty_negative:
  assumes c: "freeConnections c = fmempty" "connectionsInUse c = fmempty"
    and neg: "poolSize c < 0"
    and cl: "mongo_NewClient E (Suc (length tr)) (connStr c) = Inr cl"
  shows "\<exists>c' tr'. Checkout E c tr = (Inr cl, c', tr') \<and>
           cl \<in> set (creations (take (length tr' - length tr) tr')) \<and>
           live_count c' = 1 \<and> poolSize c' = poolSize c"
proof -
  define now where "now = time_Now_UnixNano E (length tr)"
  define tr2 where "tr2 = EvNow now # tr"
  define tr5 where "tr5 = EvNewClient (connStr c) (Inr cl) # tr2"
  define c' where "c' = c\<lparr>connectionsInUse :=
      fmupd (hash E tr5 cl) \<lparr>db = cl, creationTime = now\<rparr> (connectionsInUse c)\<rparr>"
  have first: "fill_first E 0 c tr = (None, c, tr)"
    using neg by (simp add: fill_first_repeat)
  have "fill_difference E 0 c tr2 = (None, c, tr2)"
    using neg by (simp add: fill_difference_repeat)
  with first c have fill: "Checkout_fill E c tr = (Inr now, c, tr2)"
    by (simp add: Checkout_fill_def len_fmempty time_Now_def Let_def now_def tr2_def)
  have scan: "Checkout_scan E now c tr2 = (None, c, tr2)"
    using c by (simp add: Checkout_scan_def len_fmempty)
  have "length tr2 = Suc (length tr)"
    by (simp add: tr2_def)
  with cl have miss: "Checkout_miss E now c tr2 = (Inr cl, c', tr5)"
    by (simp add: Checkout_miss_def create_def Let_def c'_def tr5_def)
  from fill scan miss have res: "Checkout E c tr = (Inr cl, c', tr5)"
    by (simp add: Checkout_def)
  have made: "cl \<in> set (creations (take (length tr5 - length tr) tr5))"
    by (simp add: tr5_def tr2_def)
  have live: "live_count c' = 1"
    using c by (simp add: c'_def live_count_def len_fmupd len_fmempty)
  have ps: "poolSize c' = poolSize c"
    by (simp add: c'_def)
  from res made live ps show ?thesis by blast
qed

lemma Checkout_empty_zero_cases:
  assumes c: "freeConnections c = fmempty" "connectionsInUse c = fmempty"
    and zero: "poolSize c = 0" and ex: "expiry c = 300000000000"
    and cl: "mongo_NewClient E (Suc (length tr)) (connStr c) = Inr cl"
    and cl2: "mongo_NewClient E (length tr + 5) (connStr c) = Inr cl2"
    and va: "validation_succeeds E"
  shows "if expired (time_Now_UnixNano E (length tr))
              \<lparr>db = cl, creationTime = time_Now_UnixNano E (length tr + 3)\<rparr> 300000000000 \<and>
            client_Disconnect E (length tr + 4) cl \<noteq> None
         then \<exists>e c' tr'. Checkout E c tr =
                  (Inl (Errorf ''error while closing the connection'' e), c', tr') \<and>
                live_count c' = 0
         else \<exists>p c' tr'. Checkout E c tr = (Inr p, c', tr') \<and>
                p \<in> set (creations (take (length tr' - length tr) tr')) \<and>
                live_count c' = 1 \<and> poolSize c' = poolSize c"
proof -
  define now where "now = time_Now_UnixNano E (length tr)"
  define tr2 where "tr2 = EvNow now # tr"
  define ct where "ct = time_Now_UnixNano E (length tr + 3)"
  define tr3 where "tr3 = EvNow ct # EvConnect cl None # EvNewClient (connStr c) (Inr cl) # tr2"
  define v where "v = \<lparr>db = cl, creationTime = ct\<rparr>"
  define h where "h = hash E tr3 cl"
  define c3 where "c3 = c\<lparr>freeConnections := fmupd h v (freeConnections c)\<rparr>"
  define c4 where "c4 = c3\<lparr>freeConnections := fmdrop h (freeConnections c3)\<rparr>"
  from va have conn: "client_Connect E t p = None" for t p
    unfolding validation_succeeds_def by blast
  have len2: "length tr2 = Suc (length tr)"
    by (simp add: tr2_def)
  have len3: "length tr3 = length tr + 4"
    by (simp add: tr3_def tr2_def)
  have first: "fill_first E 0 c tr = (None, c, tr)"
    using zero by (simp add: fill_first_repeat)
  have one: "createConnections E c tr2 = (None, c3, tr3)"
    using createConnections_ok[of E tr2 c cl] cl conn len2
    by (simp add: c3_def tr3_def v_def h_def ct_def numeral_3_eq_3)
  have "fill_difference E 0 c tr2 = repeat_create E (Suc 0) c tr2"
    using zero by (simp add: fill_difference_repeat)
  with one have "fill_difference E 0 c tr2 = (None, c3, tr3)"
    by simp
  with first c have fill: "Checkout_fill E c tr = (Inr now, c3, tr3)"
    by (simp add: Checkout_fill_def len_fmempty time_Now_def Let_def now_def tr2_def)
  have free3: "freeConnections c3 = fmupd h v fmempty" and ex3: "expiry c3 = 300000000000"
    and use3: "connectionsInUse c3 = fmempty" and str3: "connStr c3 = connStr c"
    using c ex by (simp_all add: c3_def)
  have lk: "fmlookup (freeConnections c3) h = Some v"
    by (simp add: free3)
  have "fmdom (freeConnections c3) = {|h|}"
    by (simp add: free3)
  then have keys: "range_keys E tr3 (freeConnections c3) = [h]"
    by (simp add: range_keys_def sorted_list_of_fset.rep_eq)
  have "len (freeConnections c3) > 0"
    by (simp add: free3 len_fmupd len_fmempty)
  then have scan: "Checkout_scan E now c3 tr3 = scan E now [h] c3 tr3"
    by (simp add: Checkout_scan_def keys)
  have live4: "live_count c4 = 0"
    by (simp add: c4_def free3 use3 live_count_def len_fmupd len_fmdrop len_fmempty)
  show ?thesis
  proof (cases "expired now v 300000000000")
    case False
    define c' where "c' = c3\<lparr>freeConnections := fmdrop h (freeConnections c3),
        connectionsInUse := fmupd h (v\<lparr>creationTime := now\<rparr>) (connectionsInUse c3)\<rparr>"
    define tr' where "tr' = EvConnect cl None # tr3"
    from False have young: "\<not> expired now v (expiry c3)"
      by (simp add: ex3)
    have "scan E now [h] c3 tr3 = (Some (Inr (db v)), c', EvConnect (db v) None # tr3)"
      unfolding c'_def by (rule scan_selects[OF lk young conn])
    with scan have sc: "Checkout_scan E now c3 tr3 = (Some (Inr cl), c', tr')"
      by (simp add: v_def tr'_def)
    from fill sc have res: "Checkout E c tr = (Inr cl, c', tr')"
      by (simp add: Checkout_def)
    have made: "cl \<in> set (creations (take (length tr' - length tr) tr'))"
      by (simp add: tr'_def tr3_def tr2_def)
    have live: "live_count c' = 1"
      using c by (simp add: c'_def c3_def live_count_def len_fmupd len_fmdrop len_fmempty)
    have ps: "poolSize c' = poolSize c"
      by (simp add: c'_def c3_def)
    from res made live ps have "\<exists>p c' tr'. Checkout E c tr = (Inr p, c', tr') \<and>
                p \<in> set (creations (take (length tr' - length tr) tr')) \<and>
                live_count c' = 1 \<and> poolSize c' = poolSize c"
      by blast
    with False show ?thesis
      by (simp add: now_def v_def ct_def)
  next
    case True
    then have old: "expired now v (expiry c3)"
      by (simp add: ex3)
    show ?thesis
    proof (cases "client_Disconnect E (length tr + 4) cl")
      case (Some e)
      define tr' where "tr' = EvDisconnect cl (Some e) # tr3"
      from lk old Some len3
      have "scan E now [h] c3 tr3 =
              (Some (Inl (Errorf ''error while closing the connection'' e)), c4, tr')"
        by (simp add: kill_def Let_def v_def c4_def tr'_def)
      with scan fill
      have "Checkout E c tr = (Inl (Errorf ''error while closing the connection'' e), c4, tr')"
        by (simp add: Checkout_def)
      with live4 have "\<exists>e c' tr'. Checkout E c tr =
                  (Inl (Errorf ''error while closing the connection'' e), c', tr') \<and>
                live_count c' = 0"
        by blast
      with True Some show ?thesis
        by (simp add: now_def v_def ct_def)
    next
      case None
      define tr4 where "tr4 = EvDisconnect cl None # tr3"
      define tr5 where "tr5 = EvNewClient (connStr c) (Inr cl2) # tr4"
      define c' where "c' = c4\<lparr>connectionsInUse :=
          fmupd (hash E tr5 cl2) \<lparr>db = cl2, creationTime = now\<rparr> (connectionsInUse c4)\<rparr>"
      from lk old None len3
      have "scan E now [h] c3 tr3 = (None, c4, tr4)"
        by (simp add: kill_def Let_def v_def c4_def tr4_def)
      with scan have sc: "Checkout_scan E now c3 tr3 = (None, c4, tr4)"
        by simp
      have "length tr4 = length tr + 5" "connStr c4 = connStr c"
        by (simp_all add: tr4_def len3 c4_def str3)
      with cl2 have miss: "Checkout_miss E now c4 tr4 = (Inr cl2, c', tr5)"
        by (simp add: Checkout_miss_def create_def Let_def c'_def tr5_def)
      from fill sc miss have res: "Checkout E c tr = (Inr cl2, c', tr5)"
        by (simp add: Checkout_def)
      have made: "cl2 \<in> set (creations (take (length tr5 - length tr) tr5))"
        by (simp add: tr5_def tr4_def tr3_def tr2_def)
      have live: "live_count c' = 1"
        by (simp add: c'_def c4_def free3 use3 live_count_def len_fmupd len_fmdrop len_fmempty)
      have ps: "poolSize c' = poolSize c"
        by (simp add: c'_def c4_def c3_def)
      from res made live ps have "\<exists>p c' tr'. Checkout E c tr = (Inr p, c', tr') \<and>
                p \<in> set (creations (take (length tr' - length tr) tr')) \<and>
                live_count c' = 1 \<and> poolSize c' = poolSize c"
        by blast
      with None show ?thesis
        by (simp add: now_def v_def ct_def)
    qed
  qed
qed

subsection \<open>Checking out and checking in several connections\<close>

lemma fmdom_empty_iff: "fmdom m = {||} \<longleftrightarrow> m = fmempty"
proof
  assume "fmdom m = {||}"
  then show "m = fmempty" by (intro fmap_ext) (simp add: fmdom_notD)
qed simp

lemma len_card: "len m = int (card (fset (fmdom m)))"
  by (simp add: len_def fcard.rep_eq)

lemma len_pos_iff: "0 < len m \<longleftrightarrow> m \<noteq> fmempty"
  using len_nonneg[of m] len_eq_0[of m] by auto

lemma Checkout_extends:
  assumes "Checkout E c tr = (r, c', tr')"
  shows "\<exists>evs. tr' = evs @ tr"
  using assms
proof (cases rule: Checkout_cases)
  case (fill_failed err)
  from Checkout_fill_step_ok[OF fill_failed(1)] show ?thesis
    unfolding step_ok_def by blast
next
  case (scanned now c3 tr3)
  from Checkout_fill_step_ok[OF scanned(1)] obtain evs where e: "tr3 = evs @ tr"
    unfolding step_ok_def by blast
  from Checkout_scan_scan[OF scanned(2)] obtain ks
    where "scan E now ks c3 tr3 = (Some r, c', tr')" ..
  from scan_frame[OF this] obtain evs' where "tr' = evs' @ tr3" by blast
  with e have "tr' = (evs' @ evs) @ tr" by simp
  then show ?thesis ..
next
  case (missed now c3 tr3 c4 tr4)
  from Checkout_fill_step_ok[OF missed(1)] obtain evs where e: "tr3 = evs @ tr"
    unfolding step_ok_def by blast
  from Checkout_scan_scan[OF missed(2)] obtain ks
    where "scan E now ks c3 tr3 = (None, c4, tr4)" ..
  from scan_frame[OF this] obtain evs' where e': "tr4 = evs' @ tr3" by blast
  from missed(3) obtain evs'' where "tr' = evs'' @ tr4"
    by (cases rule: Checkout_miss_cases) auto
  with e e' have "tr' = (evs'' @ evs' @ evs) @ tr" by simp
  then show ?thesis ..
qed

lemma checkouts_extends:
  "checkouts E n c tr = (ps, c', tr') \<Longrightarrow> \<exists>evs. tr' = evs @ tr"
proof (induction n arbitrary: c tr ps c' tr')
  case 0
  then show ?case by simp
next
  case (Suc n)
  obtain r c1 tr1 where co: "Checkout E c tr = (r, c1, tr1)"
    by (metis prod.collapse)
  from Checkout_extends[OF co] obtain evs where e: "tr1 = evs @ tr" ..
  obtain qs c2 tr2 where rest: "checkouts E n c1 tr1 = (qs, c2, tr2)"
    by (metis prod.collapse)
  from Suc.IH[OF rest] obtain evs' where e': "tr2 = evs' @ tr1" ..
  from Suc.prems co rest have "tr' = tr2"
    by (cases r) auto
  with e e' have "tr' = (evs' @ evs) @ tr" by simp
  then show ?case ..
qed

lemma creations_suffix_distinct:
  assumes "distinct (map f (creations (evs @ tr)))"
  shows "distinct (map f (creations tr))"
  using assms by (simp add: creations_append)

lemma traced_Now: "traced E c tr \<Longrightarrow> traced E c (EvNow t # tr)"
  by (simp add: traced_def)

lemma traced_ready: "traced E c tr \<Longrightarrow> expiry c = 300000000000 \<Longrightarrow> ready E c"
  unfolding traced_def ready_def by blast

lemma createConnections_fills:
  assumes cl: "mongo_NewClient E (length tr) (connStr c) = Inr cl"
    and va: "validation_succeeds E" and st: "stable_json E"
    and tc: "traced E c tr"
  obtains c1 tr1 where "createConnections E c tr = (None, c1, tr1)"
    "creations tr1 = cl # creations tr" "traced E c1 tr1"
    "hash E [] cl \<notin> hash E [] ` set (creations tr) \<Longrightarrow>
       len (freeConnections c1) = len (freeConnections c) + 1"
proof -
  define t where "t = time_Now_UnixNano E (Suc (Suc (length tr)))"
  define tr1 where "tr1 = EvNow t # EvConnect cl None # EvNewClient (connStr c) (Inr cl) # tr"
  define v where "v = \<lparr>db = cl, creationTime = t\<rparr>"
  define c1 where "c1 = c\<lparr>freeConnections := fmupd (hash E [] cl) v (freeConnections c)\<rparr>"
  from va have conn: "client_Connect E (Suc (length tr)) cl = None"
    unfolding validation_succeeds_def by blast
  have h: "hash E tr1 cl = hash E [] cl"
    by (rule stable_hash[OF st])
  have run: "createConnections E c tr = (None, c1, tr1)"
    using createConnections_ok[OF cl conn] h
    by (simp add: c1_def tr1_def v_def t_def)
  have made: "creations tr1 = cl # creations tr"
    by (simp add: tr1_def)
  have tr: "traced E c1 tr1"
    unfolding traced_def
  proof (intro allI impI)
    fix k w assume lk: "fmlookup (freeConnections c1) k = Some w"
    show "db w \<in> set (creations tr1) \<and> k = hash E [] (db w) \<and>
          (\<exists>t. creationTime w = time_Now_UnixNano E t)"
    proof (cases "k = hash E [] cl")
      case True
      with lk have "w = v" by (simp add: c1_def)
      with True made show ?thesis by (auto simp: v_def t_def)
    next
      case False
      with lk have "fmlookup (freeConnections c) k = Some w" by (simp add: c1_def)
      with tc made show ?thesis unfolding traced_def by auto
    qed
  qed
  have grow: "len (freeConnections c1) = len (freeConnections c) + 1"
    if fresh: "hash E [] cl \<notin> hash E [] ` set (creations tr)"
  proof -
    have "hash E [] cl |\<notin>| fmdom (freeConnections c)"
    proof
      assume "hash E [] cl |\<in>| fmdom (freeConnections c)"
      then obtain w where w: "fmlookup (freeConnections c) (hash E [] cl) = Some w"
        by (auto simp: fmlookup_dom_iff)
      with tc have "db w \<in> set (creations tr)" "hash E [] cl = hash E [] (db w)"
        unfolding traced_def by blast+
      with fresh show False by auto
    qed
    then show ?thesis by (simp add: c1_def len_fmupd)
  qed
  from run made tr grow that show ?thesis by blast
qed

lemma repeat_create_fills:
  assumes cr: "creation_succeeds E s" and va: "validation_succeeds E" and st: "stable_json E"
  shows "connStr c = s \<Longrightarrow> traced E c tr \<Longrightarrow> repeat_create E n c tr = (r, c', tr') \<Longrightarrow>
     distinct (map (hash E []) (creations tr')) \<Longrightarrow>
     r = None \<and> len (freeConnections c') = len (freeConnections c) + int n \<and> traced E c' tr'"
proof (induction n arbitrary: c tr)
  case 0
  then show ?case by simp
next
  case (Suc n)
  from cr Suc.prems(1) obtain cl where cl: "mongo_NewClient E (length tr) (connStr c) = Inr cl"
    unfolding creation_succeeds_def by blast
  from createConnections_fills[OF cl va st Suc.prems(2)] obtain c1 tr1 where
    one: "createConnections E c tr = (None, c1, tr1)"
    and made: "creations tr1 = cl # creations tr" and t1: "traced E c1 tr1"
    and grow: "hash E [] cl \<notin> hash E [] ` set (creations tr) \<Longrightarrow>
       len (freeConnections c1) = len (freeConnections c) + 1"
    by blast
  from one Suc.prems(3) have rest: "repeat_create E n c1 tr1 = (r, c', tr')"
    by simp
  from repeat_create_step_ok[OF rest] obtain evs where e: "tr' = evs @ tr1"
    unfolding step_ok_def by blast
  from createConnections_step_ok[OF one] Suc.prems(1) have s1: "connStr c1 = s"
    by (simp add: step_ok_def)
  from Suc.prems(4) e have "distinct (map (hash E []) (creations tr1))"
    by (simp add: creations_append)
  with made have "hash E [] cl \<notin> hash E [] ` set (creations tr)"
    by simp
  from grow[OF this] Suc.IH[OF s1 t1 rest Suc.prems(4)] show ?case
    by simp
qed

lemma range_keys_nonempty:
  assumes "m \<noteq> fmempty"
  shows "\<exists>k ks. range_keys E tr m = k # ks \<and> k |\<in>| fmdom m"
proof -
  from assms have "fmdom m \<noteq> {||}"
    by (simp add: fmdom_empty_iff)
  then have "fset_of_list (range_keys E tr m) \<noteq> {||}"
    by (simp add: fset_of_list_range_keys)
  then obtain k ks where e: "range_keys E tr m = k # ks"
    by (cases "range_keys E tr m") auto
  then have "k \<in> set (range_keys E tr m)" by simp
  then have "k |\<in>| fmdom m" by (simp add: set_range_keys)
  with e show ?thesis by blast
qed

lemma Checkout_scan_selects:
  assumes ne: "freeConnections c \<noteq> fmempty"
    and fresh: "\<forall>k v. fmlookup (freeConnections c) k = Some v \<longrightarrow> \<not> expired now v (expiry c)"
    and ok: "validation_succeeds E"
  shows "\<exists>k v. fmlookup (freeConnections c) k = Some v \<and>
    Checkout_scan E now c tr =
       (Some (Inr (db v)),
        c\<lparr>freeConnections := fmdrop k (freeConnections c),
          connectionsInUse := fmupd k (v\<lparr>creationTime := now\<rparr>) (connectionsInUse c)\<rparr>,
        EvConnect (db v) None # tr)"
proof -
  from range_keys_nonempty[OF ne] obtain k ks where rk: "range_keys E tr (freeConnections c) = k # ks"
    and k: "k |\<in>| fmdom (freeConnections c)"
    by blast
  from k obtain v where v: "fmlookup (freeConnections c) k = Some v"
    by (auto simp: fmlookup_dom_iff)
  from ne have "len (freeConnections c) > 0"
    by (simp add: len_pos_iff)
  then have "Checkout_scan E now c tr = scan E now (k # ks) c tr"
    by (simp add: Checkout_scan_def rk)
  also have "\<dots> = (Some (Inr (db v)),
        c\<lparr>freeConnections := fmdrop k (freeConnections c),
          connectionsInUse := fmupd k (v\<lparr>creationTime := now\<rparr>) (connectionsInUse c)\<rparr>,
        EvConnect (db v) None # tr)"
  proof (rule scan_selects[OF v])
    from fresh v show "\<not> expired now v (expiry c)" by blast
    from ok show "client_Connect E (length tr) (db v) = None"
      unfolding validation_succeeds_def by blast
  qed
  finally show ?thesis using v by blast
qed

lemma holds_len_inUse:
  assumes "holds E P c S extra"
  shows "len (connectionsInUse c) = int (card S)"
proof -
  from assms have "fset (fmdom (connectionsInUse c)) = hash E [] ` S" "inj_on (hash E []) S"
    by (simp_all add: holds_def)
  then show ?thesis by (simp add: len_card card_image)
qed

lemma holds_live_count:
  assumes "holds E P c S extra"
  shows "live_count c = P + extra"
  using assms holds_len_inUse[OF assms] by (simp add: live_count_def holds_def)

lemma select_holds:
  fixes now :: int64
  assumes h: "holds E P c S 1" and rd: "ready E c"
    and lk: "fmlookup (freeConnections c) k = Some v"
  defines "c' \<equiv> c\<lparr>freeConnections := fmdrop k (freeConnections c),
          connectionsInUse := fmupd k (v\<lparr>creationTime := now\<rparr>) (connectionsInUse c)\<rparr>"
  shows "db v \<notin> S \<and> holds E P c' (insert (db v) S) 1 \<and> ready E c'"
proof -
  from h have ps: "poolSize c = P" and dj: "disjoint_pool c" and fin: "finite S"
    and inj: "inj_on (hash E []) S"
    and dom: "fset (fmdom (connectionsInUse c)) = hash E [] ` S"
    and lf: "len (freeConnections c) = P + 1 - int (card S)"
    by (simp_all add: holds_def)
  from rd lk have k: "k = hash E [] (db v)"
    unfolding ready_def by blast
  from lk have kf: "k |\<in>| fmdom (freeConnections c)"
    by (simp add: fmdomI)
  with dj have ku: "k |\<notin>| fmdom (connectionsInUse c)"
    by (auto simp: disjoint_pool_def)
  then have "k \<notin> hash E [] ` S"
    using dom by auto
  with k have new: "db v \<notin> S" and knew: "hash E [] (db v) \<notin> hash E [] ` S"
    by auto
  have "disjoint_pool c'"
    using dj by (auto simp: disjoint_pool_def c'_def)
  moreover have "inj_on (hash E []) (insert (db v) S)"
    using inj knew by auto
  moreover have "fset (fmdom (connectionsInUse c')) = hash E [] ` insert (db v) S"
    using dom k by (simp add: c'_def)
  moreover have "len (freeConnections c') = P + 1 - int (card (insert (db v) S))"
    using lf kf fin new by (simp add: c'_def len_fmdrop)
  ultimately have "holds E P c' (insert (db v) S) 1"
    using ps fin by (simp add: holds_def c'_def)
  moreover have "ready E c'"
    using rd unfolding ready_def c'_def by (auto split: if_splits)
  ultimately show ?thesis using new by simp
qed

lemma Checkout_selects:
  assumes fill: "Checkout_fill E c tr = (Inr (time_Now_UnixNano E t0), c3, tr3)"
    and va: "validation_succeeds E" and ne: "never_expires E"
    and h: "holds E P c3 S 1" and rd: "ready E c3" and room: "int (card S) \<le> P"
  shows "\<exists>p c' tr'. Checkout E c tr = (Inr p, c', tr') \<and> p \<notin> S \<and>
           holds E P c' (insert p S) 1 \<and> ready E c' \<and> creations tr' = creations tr3"
proof -
  define now where "now = time_Now_UnixNano E t0"
  from h room have "0 < len (freeConnections c3)"
    by (simp add: holds_def)
  then have nonempty: "freeConnections c3 \<noteq> fmempty"
    by (simp add: len_pos_iff)
  have young: "\<forall>k v. fmlookup (freeConnections c3) k = Some v \<longrightarrow> \<not> expired now v (expiry c3)"
  proof (intro allI impI)
    fix k v assume "fmlookup (freeConnections c3) k = Some v"
    with rd obtain t where "creationTime v = time_Now_UnixNano E t" and "expiry c3 = 300000000000"
      unfolding ready_def by blast
    with ne show "\<not> expired now v (expiry c3)"
      by (simp add: never_expires_def expired_def now_def)
  qed
  from Checkout_scan_selects[OF nonempty young va, of tr3] obtain k v where
    lk: "fmlookup (freeConnections c3) k = Some v"
    and sc: "Checkout_scan E now c3 tr3 =
       (Some (Inr (db v)),
        c3\<lparr>freeConnections := fmdrop k (freeConnections c3),
          connectionsInUse := fmupd k (v\<lparr>creationTime := now\<rparr>) (connectionsInUse c3)\<rparr>,
        EvConnect (db v) None # tr3)"
    by blast
  define c' where "c' = c3\<lparr>freeConnections := fmdrop k (freeConnections c3),
          connectionsInUse := fmupd k (v\<lparr>creationTime := now\<rparr>) (connectionsInUse c3)\<rparr>"
  from fill sc have run: "Checkout E c tr = (Inr (db v), c', EvConnect (db v) None # tr3)"
    by (simp add: Checkout_def now_def c'_def)
  from select_holds[OF h rd lk, of now]
  have "db v \<notin> S" "holds E P c' (insert (db v) S) 1" "ready E c'"
    by (simp_all add: c'_def)
  moreover have "creations (EvConnect (db v) None # tr3) = creations tr3"
    by simp
  ultimately show ?thesis using run by blast
qed

lemma Checkout_next:
  assumes va: "validation_succeeds E" and ne: "never_expires E"
    and h: "holds E P c S 1" and rd: "ready E c" and some: "S \<noteq> {}" and room: "int (card S) \<le> P"
  shows "\<exists>p c' tr'. Checkout E c tr = (Inr p, c', tr') \<and> p \<notin> S \<and>
           holds E P c' (insert p S) 1 \<and> ready E c' \<and> creations tr' = creations tr"
proof -
  define now where "now = time_Now_UnixNano E (length tr)"
  define tr2 where "tr2 = EvNow now # tr"
  from h have fin: "finite S" and ps: "poolSize c = P"
    by (simp_all add: holds_def)
  with some have "0 < card S"
    by (simp add: card_gt_0_iff)
  with holds_len_inUse[OF h] have used: "len (connectionsInUse c) \<noteq> 0"
    by simp
  from holds_live_count[OF h] have "len (freeConnections c) + len (connectionsInUse c) = P + 1"
    by (simp add: live_count_def)
  with ps have "fill_difference E (len (freeConnections c) + len (connectionsInUse c)) c tr2 = (None, c, tr2)"
    by (simp add: fill_difference_repeat)
  with used have fill: "Checkout_fill E c tr = (Inr (time_Now_UnixNano E (length tr)), c, tr2)"
    by (simp add: Checkout_fill_def time_Now_def Let_def now_def tr2_def)
  from Checkout_selects[OF fill va ne h rd room] show ?thesis
    by (simp add: tr2_def)
qed

lemma Checkout_first:
  assumes cr: "creation_succeeds E s" and va: "validation_succeeds E" and ne: "never_expires E"
    and st: "stable_json E" and P: "0 \<le> P"
    and run: "Checkout E (fst (CreateConnPool P s)) [] = (r, c', tr')"
    and dk: "distinct (map (hash E []) (creations tr'))"
  shows "\<exists>p. r = Inr p \<and> holds E P c' {p} 1 \<and> ready E c'"
proof -
  define c where "c = fst (CreateConnPool P s)"
  have c: "freeConnections c = fmempty" "connectionsInUse c = fmempty" "poolSize c = P"
    "connStr c = s" "expiry c = 300000000000"
    by (simp_all add: c_def CreateConnPool_def)
  have t0: "traced E c []"
    by (simp add: traced_def c)
  obtain rf c3 tr3 where fill: "Checkout_fill E c [] = (rf, c3, tr3)"
    by (metis prod.collapse)
  from run have run': "Checkout E c [] = (r, c', tr')"
    by (simp add: c_def)
  have ext: "\<exists>evs. tr' = evs @ tr3"
    using run'
  proof (cases rule: Checkout_cases)
    case (fill_failed err)
    with fill show ?thesis by simp
  next
    case (scanned now c3' tr3')
    from Checkout_scan_scan[OF scanned(2)] obtain ks
      where "scan E now ks c3' tr3' = (Some r, c', tr')" ..
    from scan_frame[OF this] scanned(1) fill show ?thesis by auto
  next
    case (missed now c3' tr3' c4 tr4)
    from Checkout_scan_scan[OF missed(2)] obtain ks
      where "scan E now ks c3' tr3' = (None, c4, tr4)" ..
    from scan_frame[OF this] obtain evs' where e': "tr4 = evs' @ tr3'" by blast
    from missed(3) obtain evs'' where "tr' = evs'' @ tr4"
      by (cases rule: Checkout_miss_cases) auto
    with e' have "tr' = (evs'' @ evs') @ tr3'" by simp
    with missed(1) fill show ?thesis by auto
  qed
  with dk have d3: "distinct (map (hash E []) (creations tr3))"
    by (auto simp: creations_append)
  have filled: "\<exists>t0. rf = Inr (time_Now_UnixNano E t0) \<and>
      len (freeConnections c3) = P + 1 \<and> traced E c3 tr3"
    using fill
  proof (cases rule: Checkout_fill_cases)
    case (first_failed err)
    from repeat_create_fills[OF cr va st c(4) t0 first_failed(3) d3] show ?thesis by simp
  next
    case (difference_failed err c1 tr1)
    from difference_failed(1) c have f1: "repeat_create E (nat P) c [] = (None, c1, tr1)"
      by simp
    from repeat_create_step_ok[OF difference_failed(2)] obtain evs where
      "tr3 = evs @ EvNow (time_Now_UnixNano E (length tr1)) # tr1"
      unfolding step_ok_def by blast
    then have "tr3 = (evs @ [EvNow (time_Now_UnixNano E (length tr1))]) @ tr1" by simp
    with d3 have d1: "distinct (map (hash E []) (creations tr1))"
      using creations_suffix_distinct by blast
    from repeat_create_fills[OF cr va st c(4) t0 f1 d1] have t1: "traced E c1 tr1" by simp
    from repeat_create_step_ok[OF f1] c have s1: "connStr c1 = s"
      by (simp add: step_ok_def)
    from repeat_create_fills[OF cr va st s1 traced_Now[OF t1] difference_failed(2) d3]
    show ?thesis by simp
  next
    case (filled c1 tr1)
    from filled(1) c have f1: "repeat_create E (nat P) c [] = (None, c1, tr1)"
      by simp
    from repeat_create_step_ok[OF filled(2)] obtain evs where
      "tr3 = evs @ EvNow (time_Now_UnixNano E (length tr1)) # tr1"
      unfolding step_ok_def by blast
    then have "tr3 = (evs @ [EvNow (time_Now_UnixNano E (length tr1))]) @ tr1" by simp
    with d3 have d1: "distinct (map (hash E []) (creations tr1))"
      using creations_suffix_distinct by blast
    from repeat_create_fills[OF cr va st c(4) t0 f1 d1] P c
    have t1: "traced E c1 tr1" and l1: "len (freeConnections c1) = P"
      by (simp_all add: len_fmempty)
    from repeat_create_step_ok[OF f1] c have s1: "connStr c1 = s" "poolSize c1 = P"
      "connectionsInUse c1 = fmempty"
      by (simp_all add: step_ok_def)
    from l1 s1 have "nat (poolSize c1 + 1 - live_count c1) = Suc 0"
      by (simp add: live_count_def len_fmempty)
    with filled(2) have f2: "repeat_create E (Suc 0) c1
         (EvNow (time_Now_UnixNano E (length tr1)) # tr1) = (None, c3, tr3)"
      by simp
    from repeat_create_fills[OF cr va st s1(1) traced_Now[OF t1] f2 d3] l1 filled(3)
    show ?thesis by auto
  qed
  then obtain t0 where rf: "rf = Inr (time_Now_UnixNano E t0)"
    and l3: "len (freeConnections c3) = P + 1" and t3: "traced E c3 tr3"
    by blast
  from Checkout_fill_step_ok[OF fill] c have k3: "connectionsInUse c3 = fmempty"
    "poolSize c3 = P" "expiry c3 = 300000000000"
    by (simp_all add: step_ok_def)
  have h3: "holds E P c3 {} 1"
    using k3 l3 by (simp add: holds_def disjoint_pool_def)
  have r3: "ready E c3"
    using t3 k3(3) by (rule traced_ready)
  from Checkout_selects[OF fill[unfolded rf] va ne h3 r3] P run'
  show ?thesis by auto
qed

lemma checkouts_next:
  assumes va: "validation_succeeds E" and ne: "never_expires E"
  shows "holds E P c S 1 \<Longrightarrow> ready E c \<Longrightarrow> S \<noteq> {} \<Longrightarrow> int (card S) + int n \<le> P \<Longrightarrow>
     \<exists>ps c' tr'. checkouts E n c tr = (ps, c', tr') \<and> length ps = n \<and> distinct ps \<and>
        set ps \<inter> S = {} \<and> holds E P c' (set ps \<union> S) 1"
proof (induction n arbitrary: c tr S)
  case 0
  then show ?case by simp
next
  case (Suc n)
  from Suc.prems(4) have room: "int (card S) \<le> P" by simp
  from Checkout_next[OF va ne Suc.prems(1,2,3) room, of tr] obtain p c1 tr1 where
    co: "Checkout E c tr = (Inr p, c1, tr1)" and new: "p \<notin> S"
    and h1: "holds E P c1 (insert p S) 1" and r1: "ready E c1"
    by blast
  from Suc.prems(1) have fin: "finite S" by (simp add: holds_def)
  with new Suc.prems(4) have room1: "int (card (insert p S)) + int n \<le> P" by simp
  from Suc.IH[OF h1 r1 _ room1, of tr1] obtain ps c' tr' where
    rest: "checkouts E n c1 tr1 = (ps, c', tr')" and l: "length ps = n" and d: "distinct ps"
    and i: "set ps \<inter> insert p S = {}" and h': "holds E P c' (set ps \<union> insert p S) 1"
    by blast
  from co rest have "checkouts E (Suc n) c tr = (p # ps, c', tr')" by simp
  moreover have "length (p # ps) = Suc n" using l by simp
  moreover have "distinct (p # ps)" using d i by auto
  moreover have "set (p # ps) \<inter> S = {}" using i new by auto
  moreover have "holds E P c' (set (p # ps) \<union> S) 1" using h' by simp
  ultimately show ?case by blast
qed

lemma checkouts_fresh:
  assumes cr: "creation_succeeds E s" and va: "validation_succeeds E" and ne: "never_expires E"
    and st: "stable_json E" and N: "int (Suc n) \<le> P"
    and run: "checkouts E (Suc n) (fst (CreateConnPool P s)) [] = (ps, c1, tr1)"
    and dk: "distinct (map (hash E []) (creations tr1))"
  shows "length ps = Suc n \<and> distinct ps \<and> holds E P c1 (set ps) 1"
proof -
  obtain r ca tra where co: "Checkout E (fst (CreateConnPool P s)) [] = (r, ca, tra)"
    by (metis prod.collapse)
  obtain qs cb trb where rest: "checkouts E n ca tra = (qs, cb, trb)"
    by (metis prod.collapse)
  from run co rest have trb: "tr1 = trb"
    by (cases r) auto
  from checkouts_extends[OF rest] trb obtain evs where "tr1 = evs @ tra" by blast
  with dk have da: "distinct (map (hash E []) (creations tra))"
    using creations_suffix_distinct by blast
  from N have P: "0 \<le> P" by simp
  from Checkout_first[OF cr va ne st P co da] obtain p where
    r: "r = Inr p" and ha: "holds E P ca {p} 1" and ra: "ready E ca"
    by blast
  from N have room: "int (card {p}) + int n \<le> P" by simp
  from checkouts_next[OF va ne ha ra _ room, of tra] rest obtain
    l: "length qs = n" and d: "distinct qs" and i: "set qs \<inter> {p} = {}"
    and hb: "holds E P cb (set qs \<union> {p}) 1"
    by auto
  from run co rest r have "ps = p # qs" "c1 = cb" by simp_all
  with l d i hb show ?thesis by simp
qed

lemma holds_key:
  assumes "holds E P c S extra" and "p \<in> S"
  shows "hash E [] p |\<in>| fmdom (connectionsInUse c)"
    and "hash E [] p |\<notin>| fmdom (freeConnections c)"
    and "fset (fmdom (fmdrop (hash E [] p) (connectionsInUse c))) = hash E [] ` (S - {p})"
    and "0 < card S"
proof -
  from assms(1) have dj: "disjoint_pool c" and fin: "finite S" and inj: "inj_on (hash E []) S"
    and dom: "fset (fmdom (connectionsInUse c)) = hash E [] ` S"
    by (simp_all add: holds_def)
  from dom assms(2) show u: "hash E [] p |\<in>| fmdom (connectionsInUse c)"
    by auto
  with dj show "hash E [] p |\<notin>| fmdom (freeConnections c)"
    by (auto simp: disjoint_pool_def)
  have "hash E [] ` (S - {p}) = hash E [] ` S - {hash E [] p}"
    using inj assms(2) by (auto simp: inj_on_def)
  with dom show "fset (fmdom (fmdrop (hash E [] p) (connectionsInUse c))) = hash E [] ` (S - {p})"
    by simp
  from fin assms(2) show "0 < card S"
    by (auto simp: card_gt_0_iff)
qed

lemma CheckIn_holds:
  assumes st: "stable_json E" and h: "holds E P c S extra" and ex: "extra = 0 \<or> extra = 1"
    and p: "p \<in> S" and run: "CheckIn E (Some p) c tr = (r, c', tr')"
  shows "holds E P c' (S - {p}) 0"
proof -
  define k where "k = hash E [] p"
  have hk: "hash E tr p = k"
    unfolding k_def by (rule stable_hash[OF st])
  from h have ps: "poolSize c = P" and dj: "disjoint_pool c" and fin: "finite S"
    and inj: "inj_on (hash E []) S"
    and lf: "len (freeConnections c) = P + extra - int (card S)"
    by (simp_all add: holds_def)
  note key = holds_key[OF h p, folded k_def]
  have lu: "len (fmdrop k (connectionsInUse c)) = int (card S) - 1"
    using key(1) holds_len_inUse[OF h] by (simp add: len_fmdrop)
  have card: "int (card (S - {p})) = int (card S) - 1"
    using fin p key(4) by (simp add: card_Diff_singleton)
  have inj': "inj_on (hash E []) (S - {p})"
    using inj by (rule inj_on_subset) auto
  show ?thesis
  proof (cases "extra = 1")
    case True
    with lf lu ps have "\<not> len (freeConnections c) + len (fmdrop k (connectionsInUse c)) < poolSize c"
      by simp
    with run hk have c': "c' = c\<lparr>connectionsInUse := fmdrop k (connectionsInUse c)\<rparr>"
      by (simp add: CheckIn_def Let_def)
    have "disjoint_pool c'"
      using dj by (auto simp: disjoint_pool_def c')
    with ps fin inj' key(3) lf card True show ?thesis
      by (simp add: holds_def c')
  next
    case False
    with ex have zero: "extra = 0" by simp
    with lf lu ps have "len (freeConnections c) + len (fmdrop k (connectionsInUse c)) < poolSize c"
      by simp
    with run hk obtain t where c': "c' = c\<lparr>connectionsInUse := fmdrop k (connectionsInUse c),
        freeConnections := fmupd k \<lparr>db = p, creationTime = t\<rparr> (freeConnections c)\<rparr>"
      by (auto simp: CheckIn_def Let_def time_Now_def)
    have "disjoint_pool c'"
      using dj by (auto simp: disjoint_pool_def c')
    moreover have "len (freeConnections c') = P + 0 - int (card (S - {p}))"
      using lf key(2) card zero by (simp add: c' len_fmupd)
    ultimately show ?thesis
      using ps fin inj' key(3) by (simp add: holds_def c')
  qed
qed

lemma checkins_holds:
  assumes st: "stable_json E"
  shows "holds E P c S 0 \<Longrightarrow> distinct qs \<Longrightarrow> set qs = S \<Longrightarrow> checkins E qs c tr = (c', tr') \<Longrightarrow>
     holds E P c' {} 0"
proof (induction qs arbitrary: c tr S)
  case Nil
  then show ?case by simp
next
  case (Cons q qs)
  obtain r ca tra where ci: "CheckIn E (Some q) c tr = (r, ca, tra)"
    by (metis prod.collapse)
  from Cons.prems(3) have q: "q \<in> S" by auto
  from CheckIn_holds[OF st Cons.prems(1) _ q ci] have ha: "holds E P ca (S - {q}) 0"
    by simp
  from Cons.prems(2,3) have s: "set qs = S - {q}" and d: "distinct qs"
    by auto
  from Cons.prems(4) ci have "checkins E qs ca tra = (c', tr')"
    by simp
  from Cons.IH[OF ha d s this] show ?case .
qed

section \<open>How many connections the pool holds\<close>

text \<open>
  C1, as the code has it. The number of connections in the two maps is not kept within the
  capacity between operations. Whatever its outcome, a \<^verbatim>\<open>Checkout\<close> leaves at most one
  connection more than the larger of the capacity and the number it found; that excess is in
  the maps when \<^verbatim>\<open>Checkout\<close> has returned and stays until connections are checked in. A
  \<^verbatim>\<open>CheckIn\<close> never leaves more than the larger of the capacity and the number it found. After
  a \<^verbatim>\<open>Checkout\<close> followed by the \<^verbatim>\<open>CheckIn\<close> of a connection whose key is in the in-use map,
  the number is at most the larger of the capacity and the number before the pair.
\<close>

theorem live_count_bounds:
  "Checkout E c tr = (r, c1, tr1) \<Longrightarrow> CheckIn E (Some p) c1 tr2 = (r2, c2, tr3) \<Longrightarrow>
     live_count c1 \<le> max (live_count c) (poolSize c) + 1 \<and>
     live_count c2 \<le> max (live_count c1) (poolSize c1) \<and>
     (hash E tr2 p |\<in>| fmdom (connectionsInUse c1) \<longrightarrow>
        live_count c2 \<le> max (live_count c) (poolSize c))"
proof -
  assume co: "Checkout E c tr = (r, c1, tr1)" and ci: "CheckIn E (Some p) c1 tr2 = (r2, c2, tr3)"
  have ps: "poolSize c1 = poolSize c"
    using co
  proof (cases rule: Checkout_cases)
    case (fill_failed err)
    from Checkout_fill_step_ok[OF fill_failed(1)] show ?thesis by (simp add: step_ok_def)
  next
    case (scanned now c3 tr3)
    from Checkout_scan_scan[OF scanned(2)] obtain ks
      where "scan E now ks c3 tr3 = (Some r, c1, tr1)" ..
    from scan_frame[OF this] Checkout_fill_step_ok[OF scanned(1)]
    show ?thesis by (simp add: step_ok_def)
  next
    case (missed now c3 tr3 c4 tr4)
    from Checkout_scan_scan[OF missed(2)] obtain ks
      where "scan E now ks c3 tr3 = (None, c4, tr4)" ..
    from scan_frame[OF this] Checkout_fill_step_ok[OF missed(1)]
    have "poolSize c4 = poolSize c" by (simp add: step_ok_def)
    with missed(3) show ?thesis by (cases rule: Checkout_miss_cases) auto
  qed
  note b1 = Checkout_live_count[OF co]
  note b2 = CheckIn_live_count[OF ci]
  have "live_count c2 \<le> max (live_count c) (poolSize c)"
    if "hash E tr2 p |\<in>| fmdom (connectionsInUse c1)"
    using b2(2)[OF that] b1 ps by simp
  with b1 b2(1) show ?thesis by simp
qed

theorem live_count_bounds_witness:
  "(case Checkout env_distinct (fst (CreateConnPool 2 ''db'')) [] of
      (r, c1, tr1) \<Rightarrow>
        (case CheckIn env_distinct (Some 0) c1 tr1 of
           (r2, c2, tr3) \<Rightarrow>
             hash env_distinct tr1 0 |\<in>| fmdom (connectionsInUse c1) \<and>
             live_count c1 \<le> 3 \<and> live_count c2 \<le> 2))"
proof -
  let ?c = "fst (CreateConnPool 2 ''db'')"
  obtain r c1 tr1 where co: "Checkout env_distinct ?c [] = (r, c1, tr1)"
    by (metis prod.collapse)
  obtain r2 c2 tr3 where ci: "CheckIn env_distinct (Some 0) c1 tr1 = (r2, c2, tr3)"
    by (metis prod.collapse)
  have "case Checkout env_distinct ?c [] of
          (r, c1, tr1) \<Rightarrow> hash env_distinct tr1 0 |\<in>| fmdom (connectionsInUse c1)"
    by code_simp
  with co have reg: "hash env_distinct tr1 0 |\<in>| fmdom (connectionsInUse c1)"
    by simp
  have start: "live_count ?c = 0" "poolSize ?c = 2"
    by (simp_all add: CreateConnPool_def live_count_def len_def)
  from live_count_bounds[OF co ci] reg start co ci show ?thesis
    by simp
qed

text \<open>
  C1, as stated, fails. With capacity 1, distinct keys and every call succeeding, three checkouts leave three
  connections in use, the third created by lines 98 to 109; checking that one in leaves two,
  which is above the capacity after a completed pair.
\<close>

theorem bound_counterexample:
  "(case Checkout env_distinct (fst (CreateConnPool 1 ''db'')) [] of
      (r1, c1, tr1) \<Rightarrow>
        (case Checkout env_distinct c1 tr1 of
           (r2, c2, tr2) \<Rightarrow>
             (case Checkout env_distinct c2 tr2 of
                (r3, c3, tr3) \<Rightarrow>
                  (case CheckIn env_distinct (Some 11) c3 tr3 of
                     (r4, c4, tr4) \<Rightarrow>
                       r1 = Inr 0 \<and> r2 = Inr 4 \<and> r3 = Inr 11 \<and> r4 = None \<and>
                       poolSize c4 = 1 \<and> live_count c3 = 3 \<and> live_count c4 = 2 \<and>
                       \<not> live_count c4 \<le> poolSize c4))))"
  by code_simp

section \<open>The first checkouts of a pool of capacity 2\<close>

text \<open>
  C2. With capacity 2, every call succeeding, distinct keys and nothing expired, the first
  \<^verbatim>\<open>Checkout\<close> of a fresh pool creates three connections, not two (the loop of lines 64 to 69
  runs once more after the first fill, its bound being \<^verbatim>\<open>i <= c.poolSize\<close>), and leaves two
  free and one in use; the second creates none and leaves one free and two in use.
\<close>

theorem Checkout_twice_capacity_2:
  "(case Checkout env_distinct (fst (CreateConnPool 2 ''db'')) [] of
      (r1, c1, tr1) \<Rightarrow>
        r1 = Inr 0 \<and> creations tr1 = [7, 3, 0] \<and>
        len (freeConnections c1) = 2 \<and> len (connectionsInUse c1) = 1 \<and>
        (case Checkout env_distinct c1 tr1 of
           (r2, c2, tr2) \<Rightarrow>
             r2 = Inr 3 \<and> creations tr2 = creations tr1 \<and>
             len (freeConnections c2) = 1 \<and> len (connectionsInUse c2) = 2))"
  by code_simp

section \<open>Expiry\<close>

text \<open>
  C3, as the code has it. The age of a free connection is the clock reading of the checkout
  minus its creation time, in \<^verbatim>\<open>int64\<close>, and \<open>expired\<close> is the test of line 74: the age is
  strictly greater than the time to live. A client that \<^verbatim>\<open>Checkout\<close> returns was either
  created during that call or is the client of an entry of the free map that is not expired
  at the clock reading of the call. When the scan reaches a key whose entry is expired, the
  key leaves the free map, \<^verbatim>\<open>Disconnect\<close> is called on its client, and the in-use map has
  under that key what it had before. An entry whose age equals the time to live is not
  expired.
\<close>

theorem expired_never_returned:
  "(Checkout E c tr = (Inr p, c', tr') \<longrightarrow>
      p \<in> set (creations (take (length tr' - length tr) tr')) \<or>
      (\<exists>k v. fmlookup (freeConnections c) k = Some v \<and> db v = p \<and>
             \<not> expired (time_Now_UnixNano E (length tr)) v (expiry c))) \<and>
   (fmlookup (freeConnections c) k = Some v \<longrightarrow> expired now v (expiry c) \<longrightarrow>
      scan E now (k # ks) c tr = (r, c2, tr2) \<longrightarrow>
        k |\<notin>| fmdom (freeConnections c2) \<and>
        db v \<in> set (disconnects (take (length tr2 - length tr) tr2)) \<and>
        fmlookup (connectionsInUse c2) k = fmlookup (connectionsInUse c) k) \<and>
   (expired now v (expiry c) \<longleftrightarrow> sint (expiry c) < sint (now - creationTime v))"
  using Checkout_returns scan_expired_head expired_def by blast

theorem expired_never_returned_witness:
  "fst (Checkout env_distinct pool_after_first trace_after_first) = Inr 3 \<and>
   fmlookup (freeConnections pool_after_first) 3 = Some \<lparr>db = 3, creationTime = 5\<rparr> \<and>
   \<not> expired 11 \<lparr>db = 3, creationTime = 5\<rparr> (expiry pool_after_first) \<and>
   expired 300000000006 \<lparr>db = 3, creationTime = 5\<rparr> (expiry pool_after_first) \<and>
   (case scan env_distinct 300000000006 [3, 7] pool_after_first trace_after_first of
      (r, c2, tr2) \<Rightarrow>
        r = Some (Inr 7) \<and> 3 |\<notin>| fmdom (freeConnections c2) \<and>
        3 \<in> set (disconnects (take (length tr2 - length trace_after_first) tr2)) \<and>
        fmlookup (connectionsInUse c2) 3 = None)"
proof -
  let ?E = env_distinct and ?c = pool_after_first and ?tr = trace_after_first
  let ?v = "\<lparr>db = 3, creationTime = 5\<rparr>"
  let ?co = "Checkout ?E ?c ?tr"
  have r: "fst ?co = Inr 3"
    by code_simp
  then have co: "?co = (Inr 3, fst (snd ?co), snd (snd ?co))"
    by (metis prod.collapse)
  have lk: "fmlookup (freeConnections ?c) 3 = Some ?v"
    by (simp add: pool_after_first_def)
  have young: "\<not> expired 11 ?v (expiry ?c)" and old: "expired 300000000006 ?v (expiry ?c)"
    by code_simp+
  obtain r' c2 tr2 where sc: "scan ?E 300000000006 [3, 7] ?c ?tr = (r', c2, tr2)"
    by (metis prod.collapse)
  have "case scan ?E 300000000006 [3, 7] ?c ?tr of (r, c2, tr2) \<Rightarrow> r = Some (Inr 7)"
    by code_simp
  with sc have r': "r' = Some (Inr 7)" by simp
  have "fmlookup (connectionsInUse ?c) 3 = None"
    by (simp add: pool_after_first_def)
  with expired_never_returned[of ?E ?c ?tr 3 "fst (snd ?co)" "snd (snd ?co)" 3 ?v
      300000000006 "[7]" r' c2 tr2] co lk old sc r r' young
  show ?thesis by simp
qed

text \<open>
  C3, as stated, fails at an age equal to the time to live. With capacity 1, the first
  checkout leaves client 4 free with creation time 0; the second
  reads the clock at exactly the time to live, so the age equals it, and returns client 4.
\<close>

theorem age_equal_ttl_counterexample:
  "(case Checkout (clock_jump 8 300000000000 env_distinct) (fst (CreateConnPool 1 ''db'')) [] of
      (r1, c1, tr1) \<Rightarrow>
        fmlookup (freeConnections c1) 4 = Some \<lparr>db = 4, creationTime = 0\<rparr> \<and>
        expiry c1 = 300000000000 \<and>
        time_Now_UnixNano (clock_jump 8 300000000000 env_distinct) (length tr1) - 0 = 300000000000 \<and>
        fst (Checkout (clock_jump 8 300000000000 env_distinct) c1 tr1) = Inr 4)"
  by code_simp

section \<open>A failure while filling\<close>

text \<open>
  C4, as the code has it. When the environment answers with an error a creation or a
  validation made by the first fill or by the fill of the difference, \<^verbatim>\<open>Checkout\<close> returns an
  error: that call is its last one, and the error is the one of the driver in the context of
  \<^verbatim>\<open>create\<close> or \<^verbatim>\<open>validate\<close> and then of \<^verbatim>\<open>createConnections\<close>. The in-use map and the capacity are
  what they were: nothing is marked in use. The free map is not restored: every key it had is
  still a key of it, and it may hold connections that the loop registered before the failure.
\<close>

theorem fill_failure_effect:
  assumes run: "Checkout_fill E c tr = (r, c', tr')"
    and fail: "some_call_fails E (length tr) (take (length tr' - length tr) tr')"
  shows "\<exists>err. r = Inl err \<and> Checkout E c tr = (Inl err, c', tr') \<and>
           wraps_failure E (connStr c) (length tr' - 1) err \<and>
           connectionsInUse c' = connectionsInUse c \<and>
           fmdom (freeConnections c) |\<subseteq>| fmdom (freeConnections c') \<and>
           poolSize c' = poolSize c"
proof -
  from Checkout_fill_fails[OF run] obtain evs where e: "tr' = evs @ tr"
    and n: "(\<exists>now. r = Inr now) \<longrightarrow> \<not> some_call_fails E (length tr) evs"
    and w: "\<forall>err. r = Inl err \<longrightarrow> wraps_failure E (connStr c) (length tr' - 1) err"
    by blast
  from e fail have "some_call_fails E (length tr) evs" by simp
  with n obtain err where r: "r = Inl err" by (cases r) auto
  with run have "Checkout E c tr = (Inl err, c', tr')"
    by (simp add: Checkout_def)
  moreover from w r have "wraps_failure E (connStr c) (length tr' - 1) err" by simp
  moreover from Checkout_fill_step_ok[OF run]
  have "connectionsInUse c' = connectionsInUse c"
    "fmdom (freeConnections c) |\<subseteq>| fmdom (freeConnections c')" "poolSize c' = poolSize c"
    by (simp_all add: step_ok_def)
  ultimately show ?thesis using r by simp
qed

theorem fill_failure_effect_witness:
  "(case Checkout_fill (failing_at 4 env_distinct) (fst (CreateConnPool 2 ''db'')) [] of
      (r, c', tr') \<Rightarrow>
        client_Connect (failing_at 4 env_distinct) 4 3 = Some (External ''server selection timeout'') \<and>
        some_call_fails (failing_at 4 env_distinct) 0 tr' \<and>
        r = Inl (Errorf ''error at creating the connection pool''
                  (Errorf ''error in connecting mongo'' (External ''server selection timeout''))) \<and>
        Checkout (failing_at 4 env_distinct) (fst (CreateConnPool 2 ''db'')) [] =
          (Inl (Errorf ''error at creating the connection pool''
                 (Errorf ''error in connecting mongo'' (External ''server selection timeout''))),
           c', tr') \<and>
        length tr' = 5 \<and> connectionsInUse c' = fmempty \<and> poolSize c' = 2) \<and>
   (case Checkout_fill (failing_at 8 env_distinct) (fst (CreateConnPool 2 ''db'')) [] of
      (r, c', tr') \<Rightarrow>
        client_Connect (failing_at 8 env_distinct) 8 7 = Some (External ''server selection timeout'') \<and>
        some_call_fails (failing_at 8 env_distinct) 0 tr' \<and>
        r = Inl (Errorf ''error at creating the connection pool''
                  (Errorf ''error in connecting mongo'' (External ''server selection timeout''))) \<and>
        Checkout (failing_at 8 env_distinct) (fst (CreateConnPool 2 ''db'')) [] =
          (Inl (Errorf ''error at creating the connection pool''
                 (Errorf ''error in connecting mongo'' (External ''server selection timeout''))),
           c', tr') \<and>
        length tr' = 9 \<and> connectionsInUse c' = fmempty \<and> poolSize c' = 2)"
proof -
  let ?c = "fst (CreateConnPool 2 ''db'')"
  let ?err = "Errorf ''error at creating the connection pool''
                (Errorf ''error in connecting mongo'' (External ''server selection timeout''))"
  have "case Checkout_fill (failing_at 4 env_distinct) ?c [] of
          (r, c', tr') \<Rightarrow>
            r = Inl ?err \<and> some_call_fails (failing_at 4 env_distinct) 0 tr' \<and> length tr' = 5"
    by code_simp
  then obtain c4 tr4 where run4: "Checkout_fill (failing_at 4 env_distinct) ?c [] = (Inl ?err, c4, tr4)"
    and fail4: "some_call_fails (failing_at 4 env_distinct) 0 tr4" and len4: "length tr4 = 5"
    by (auto split: prod.splits)
  have "case Checkout_fill (failing_at 8 env_distinct) ?c [] of
          (r, c', tr') \<Rightarrow>
            r = Inl ?err \<and> some_call_fails (failing_at 8 env_distinct) 0 tr' \<and> length tr' = 9"
    by code_simp
  then obtain c8 tr8 where run8: "Checkout_fill (failing_at 8 env_distinct) ?c [] = (Inl ?err, c8, tr8)"
    and fail8: "some_call_fails (failing_at 8 env_distinct) 0 tr8" and len8: "length tr8 = 9"
    by (auto split: prod.splits)
  have env: "client_Connect (failing_at 4 env_distinct) 4 3 = Some (External ''server selection timeout'')"
    "client_Connect (failing_at 8 env_distinct) 8 7 = Some (External ''server selection timeout'')"
    by (simp_all add: failing_at_def)
  from fill_failure_effect[OF run4] fill_failure_effect[OF run8] fail4 fail8 run4 run8 len4 len8 env
  show ?thesis
    by (simp add: CreateConnPool_def)
qed

text \<open>
  C4, as stated, fails. With capacity 2, the validation of the second connection of the first
  fill fails: the
  checkout returns the error and the first connection stays in the free map, which was empty.
\<close>

theorem fill_rollback_counterexample:
  "(case Checkout (failing_at 4 env_distinct) (fst (CreateConnPool 2 ''db'')) [] of
      (r, c', tr') \<Rightarrow>
        r = Inl (Errorf ''error at creating the connection pool''
                  (Errorf ''error in connecting mongo'' (External ''server selection timeout''))) \<and>
        fmlookup (freeConnections c') 0 = Some \<lparr>db = 0, creationTime = 2\<rparr> \<and>
        len (freeConnections c') = 1 \<and>
        len (freeConnections (fst (CreateConnPool 2 ''db''))) = 0)"
  by code_simp

section \<open>Free and in use\<close>

text \<open>
  C5, as the code has it. A new pool has no key in both maps. \<^verbatim>\<open>CheckIn\<close> keeps the two maps
  disjoint. \<^verbatim>\<open>Checkout\<close> keeps them disjoint when no client created during the call has a key
  that is in the in-use map. When the scan has run to its end, the free map is empty, so the
  key under which lines 98 to 109 register the new connection is not a key of the free map.
\<close>

theorem disjoint_kept:
  "disjoint_pool (fst (CreateConnPool n s)) \<and>
   (disjoint_pool c \<longrightarrow> CheckIn E p c tr = (r, c', tr') \<longrightarrow> disjoint_pool c') \<and>
   (disjoint_pool c \<longrightarrow> Checkout E c tr = (r1, c1, tr1) \<longrightarrow>
      (\<forall>cl\<in>set (creations (take (length tr1 - length tr) tr1)).
         \<forall>tr''. hash E tr'' cl |\<notin>| fmdom (connectionsInUse c)) \<longrightarrow>
      disjoint_pool c1) \<and>
   (Checkout_scan E now c tr = (None, c4, tr4) \<longrightarrow> Checkout_miss E now c4 tr4 = (r5, c5, tr5) \<longrightarrow>
      freeConnections c5 = fmempty)"
proof -
  have "disjoint_pool (fst (CreateConnPool n s))"
    by (simp add: disjoint_pool_def CreateConnPool_def)
  moreover have "disjoint_pool c'" if "disjoint_pool c" "CheckIn E p c tr = (r, c', tr')"
    using that
    by (cases p) (auto simp: CheckIn_def Let_def time_Now_def disjoint_pool_def split: if_splits)
  moreover have "freeConnections c5 = fmempty"
    if "Checkout_scan E now c tr = (None, c4, tr4)" "Checkout_miss E now c4 tr4 = (r5, c5, tr5)"
  proof -
    from Checkout_scan_None[OF that(1)] have "freeConnections c4 = fmempty" by simp
    with that(2) show ?thesis by (cases rule: Checkout_miss_cases) auto
  qed
  ultimately show ?thesis using Checkout_disjoint by blast
qed

theorem disjoint_kept_witness:
  "disjoint_pool pool_low \<and>
   disjoint_pool (fst (snd (CheckIn env_distinct (Some 0) pool_low trace_after_first))) \<and>
   creations (take (length (snd (snd (Checkout env_distinct pool_low trace_after_first)))
                - length trace_after_first)
               (snd (snd (Checkout env_distinct pool_low trace_after_first)))) = [15, 12] \<and>
   disjoint_pool (fst (snd (Checkout env_distinct pool_low trace_after_first))) \<and>
   fst (Checkout_scan env_distinct 11 pool_low trace_after_first) = None \<and>
   freeConnections
     (fst (snd (Checkout_miss env_distinct 11
        (fst (snd (Checkout_scan env_distinct 11 pool_low trace_after_first)))
        (snd (snd (Checkout_scan env_distinct 11 pool_low trace_after_first)))))) = fmempty"
proof -
  let ?E = env_distinct and ?c = pool_low and ?tr = trace_after_first
  let ?ci = "CheckIn ?E (Some 0) ?c ?tr" and ?co = "Checkout ?E ?c ?tr"
  let ?sc = "Checkout_scan ?E 11 ?c ?tr"
  let ?mi = "Checkout_miss ?E 11 (fst (snd ?sc)) (snd (snd ?sc))"
  have d: "disjoint_pool ?c"
    by (simp add: disjoint_pool_def pool_low_def)
  have ci: "?ci = (fst ?ci, fst (snd ?ci), snd (snd ?ci))"
    and co: "?co = (fst ?co, fst (snd ?co), snd (snd ?co))"
    and mi: "?mi = (fst ?mi, fst (snd ?mi), snd (snd ?mi))"
    by simp_all
  have made: "creations (take (length (snd (snd ?co)) - length ?tr) (snd (snd ?co))) = [15, 12]"
    by code_simp
  have fresh: "\<forall>cl\<in>set (creations (take (length (snd (snd ?co)) - length ?tr) (snd (snd ?co)))).
                 \<forall>tr''. hash ?E tr'' cl |\<notin>| fmdom (connectionsInUse ?c)"
    unfolding made by (simp add: hash_def env_distinct_def pool_low_def)
  have none: "fst ?sc = None"
    by code_simp
  then have sc: "?sc = (None, fst (snd ?sc), snd (snd ?sc))"
    by (metis prod.collapse)
  note k = disjoint_kept[of 2 "''db''" ?c ?E "Some 0" ?tr "fst ?ci" "fst (snd ?ci)" "snd (snd ?ci)"
      "fst ?co" "fst (snd ?co)" "snd (snd ?co)" 11 "fst (snd ?sc)" "snd (snd ?sc)"
      "fst ?mi" "fst (snd ?mi)" "snd (snd ?mi)"]
  from k d ci co fresh sc mi made none show ?thesis
    by blast
qed

text \<open>
  C5, as stated, fails. Every client has the JSON \<^verbatim>\<open>{}\<close>, hence the same key. With
  capacity 2, a first checkout
  returns client 10. In the second, the fill of the difference registers client 15 in the free
  map, then a validation fails: the checkout returns the error and the key is in both maps.
\<close>

theorem disjoint_counterexample:
  "(case Checkout (failing_at 19 env_braces) (fst (CreateConnPool 2 ''db'')) [] of
      (r1, c1, tr1) \<Rightarrow>
        (case Checkout (failing_at 19 env_braces) c1 tr1 of
           (r2, c2, tr2) \<Rightarrow>
             r1 = Inr 10 \<and>
             r2 = Inl (Errorf ''error at creating the connection pool''
                        (Errorf ''error in connecting mongo'' (External ''server selection timeout''))) \<and>
             fmlookup (freeConnections c2) 32123 = Some \<lparr>db = 15, creationTime = 17\<rparr> \<and>
             fmlookup (connectionsInUse c2) 32123 = Some \<lparr>db = 10, creationTime = 6\<rparr> \<and>
             \<not> disjoint_pool c2))"
  by code_simp

section \<open>The key of a connection\<close>

text \<open>
  C6, as the code has it. The key is not assigned at creation and kept: \<^verbatim>\<open>hash\<close> computes it
  at every use as the MD5 of the JSON of the struct the client points to at that moment. Two
  keys are equal exactly when those MD5 sums are: two clients with the same JSON have the same
  key, and the key of a client changes when its JSON changes to one with another MD5 sum.
  \<^verbatim>\<open>CheckIn\<close> removes the key it computes at the check-in, whatever key the entry was stored
  under. If the JSON of no client ever changes, then every entry of either map is stored under
  the key of its client, \<^verbatim>\<open>Checkout\<close> and \<^verbatim>\<open>CheckIn\<close> keep that so, and the client \<^verbatim>\<open>Checkout\<close>
  returns is in the in-use map under the key that \<^verbatim>\<open>hash\<close> computes for it at any later
  moment, which is the key \<^verbatim>\<open>CheckIn\<close> removes.
\<close>

theorem key_follows_content:
  "(hash E tra cl = hash E trb cl' \<longleftrightarrow>
      md5_Sum E (json_Marshal E (length tra) cl) = md5_Sum E (json_Marshal E (length trb) cl')) \<and>
   (json_Marshal E (length tra) cl = json_Marshal E (length trb) cl' \<longrightarrow>
      hash E tra cl = hash E trb cl') \<and>
   (CheckIn E (Some q) c tr = (r2, c2, tr3) \<longrightarrow>
      connectionsInUse c2 = fmdrop (hash E tr q) (connectionsInUse c)) \<and>
   (stable_json E \<longrightarrow> keyed E (fst (CreateConnPool n s))) \<and>
   (stable_json E \<longrightarrow> keyed E c \<longrightarrow> Checkout E c tr = (r1, c1, tr1) \<longrightarrow>
      keyed E c1 \<and>
      (\<forall>p. r1 = Inr p \<longrightarrow>
         (\<exists>v. fmlookup (connectionsInUse c1) (hash E tr2 p) = Some v \<and> db v = p))) \<and>
   (stable_json E \<longrightarrow> keyed E c \<longrightarrow> CheckIn E (Some q) c tr = (r2, c2, tr3) \<longrightarrow> keyed E c2)"
proof -
  have "keyed E (fst (CreateConnPool n s))"
    by (simp add: keyed_def CreateConnPool_def)
  moreover have "connectionsInUse c2 = fmdrop (hash E tr q) (connectionsInUse c)"
    if "CheckIn E (Some q) c tr = (r2, c2, tr3)"
    using that by (auto simp: CheckIn_def Let_def time_Now_def split: if_splits)
  ultimately show ?thesis
    using Checkout_keyed CheckIn_keyed by (auto simp: hash_def)
qed

theorem key_follows_content_witness:
  "stable_json env_distinct \<and> keyed env_distinct pool_after_first \<and>
   json_Marshal env_changing 0 0 = [0] \<and> json_Marshal env_changing 11 0 = [0, 1] \<and>
   hash env_changing [] 0 \<noteq> hash env_changing trace_after_first 0 \<and>
   hash env_distinct [] 3 = hash env_distinct trace_after_first 3 \<and>
   keyed env_distinct (fst (CreateConnPool 2 ''db'')) \<and>
   (case Checkout env_distinct pool_after_first trace_after_first of
      (r1, c1, tr1) \<Rightarrow>
        r1 = Inr 3 \<and> keyed env_distinct c1 \<and>
        (\<exists>v. fmlookup (connectionsInUse c1) (hash env_distinct tr1 3) = Some v \<and> db v = 3)) \<and>
   (case CheckIn env_distinct (Some 0) pool_after_first trace_after_first of
      (r2, c2, tr3) \<Rightarrow> keyed env_distinct c2 \<and> connectionsInUse c2 = fmempty)"
proof -
  let ?E = env_distinct and ?c = pool_after_first and ?tr = trace_after_first
  have st: "stable_json ?E"
    by (simp add: stable_json_def env_distinct_def)
  have k: "keyed ?E ?c"
    by (auto simp: keyed_def pool_after_first_def hash_def env_distinct_def split: if_splits)
  have len: "length ?tr = 11"
    by (simp add: trace_after_first_def)
  have j: "json_Marshal env_changing 0 0 = [0]" "json_Marshal env_changing 11 0 = [0, 1]"
    by (simp_all add: env_changing_def env_distinct_def)
  have m: "md5_Sum env_changing [0] \<noteq> md5_Sum env_changing [0, 1]"
    by (simp add: env_changing_def env_distinct_def)
  from key_follows_content[where E = env_changing and tra = "[]" and cl = 0 and trb = "?tr"
      and cl' = 0] j m len
  have changed: "hash env_changing [] 0 \<noteq> hash env_changing ?tr 0"
    by simp
  have same: "md5_Sum ?E (json_Marshal ?E (length ([]::event list)) 3) =
      md5_Sum ?E (json_Marshal ?E (length ?tr) 3)"
    by (simp add: env_distinct_def)
  obtain r1 c1 tr1 where co: "Checkout ?E ?c ?tr = (r1, c1, tr1)"
    by (metis prod.collapse)
  obtain r2 c2 tr3 where ci: "CheckIn ?E (Some 0) ?c ?tr = (r2, c2, tr3)"
    by (metis prod.collapse)
  have "fst (Checkout ?E ?c ?tr) = Inr 3"
    by code_simp
  with co have r1: "r1 = Inr 3" by simp
  have dropped: "fmdrop (hash ?E ?tr 0) (connectionsInUse ?c) = fmempty"
    by (simp add: hash_def env_distinct_def pool_after_first_def fmap_ext)
  from key_follows_content[where E = "?E" and tra = "[]" and cl = 3 and trb = "?tr" and cl' = 3
      and n = 2 and s = "''db''" and c = "?c" and tr = "?tr" and ?r1.0 = r1 and ?c1.0 = c1
      and ?tr1.0 = tr1 and ?tr2.0 = tr1 and q = 0 and ?r2.0 = r2 and ?c2.0 = c2 and ?tr3.0 = tr3]
    st k same co ci r1 dropped changed j
  show ?thesis by simp
qed

text \<open>
  C6, as stated, fails. First, every client has the JSON \<^verbatim>\<open>{}\<close>: with capacity 2, two
  checkouts return the clients 10 and 18, both held by callers; they have the same key, the
  in-use map has one entry, and the key computed for client 10 leads to the entry of client 18.
  Second, the JSON of the clients changes after the first checkout, which returned client 0
  under the key 0: at the check-in \<^verbatim>\<open>hash\<close> computes the key 256 for it, and the entry of
  client 0 stays in the in-use map.
\<close>

theorem key_counterexample:
  "(case Checkout env_braces (fst (CreateConnPool 2 ''db'')) [] of
      (r1, c1, tr1) \<Rightarrow>
        (case Checkout env_braces c1 tr1 of
           (r2, c2, tr2) \<Rightarrow>
             r1 = Inr 10 \<and> r2 = Inr 18 \<and>
             hash env_braces tr2 10 = hash env_braces tr2 18 \<and>
             len (connectionsInUse c2) = 1 \<and>
             fmlookup (connectionsInUse c2) (hash env_braces tr2 10) =
               Some \<lparr>db = 18, creationTime = 14\<rparr>)) \<and>
   (case Checkout env_changing (fst (CreateConnPool 2 ''db'')) [] of
      (r1, c1, tr1) \<Rightarrow>
        (case CheckIn env_changing (Some 0) c1 tr1 of
           (r2, c2, tr2) \<Rightarrow>
             r1 = Inr 0 \<and>
             fmlookup (connectionsInUse c1) 0 = Some \<lparr>db = 0, creationTime = 6\<rparr> \<and>
             hash env_changing tr1 0 = 256 \<and>
             fmlookup (connectionsInUse c2) 0 = Some \<lparr>db = 0, creationTime = 6\<rparr> \<and>
             len (connectionsInUse c2) = 1))"
  by code_simp

section \<open>Check-in\<close>

text \<open>
  C7, as the code has it. \<^verbatim>\<open>CheckIn\<close> of the nil pointer panics at line 115 and leaves the pool as
  it was. \<^verbatim>\<open>CheckIn\<close> of a connection returns normally and calls neither the connector nor the
  prober: the only event it may add is a reading of the clock. It removes the key of the
  connection from the in-use map whatever the state. If the count after that removal is below
  the capacity, the connection is stored in the free map under its key with the clock reading
  of the check-in as creation time; otherwise the free map stays as it was. In particular,
  when the count before the check-in equals the capacity: a connection whose key is not in the
  in-use map is not stored, and both maps and the count stay as they were; a connection whose
  key is in the in-use map is stored in the free map, and the count stays the same, or is one
  less if the key was in the free map as well.
\<close>

theorem CheckIn_behaviour:
  "CheckIn E None c tr = (Some NilPointerDereference, c, tr) \<and>
   (CheckIn E (Some cl) c tr = (r, c', tr') \<longrightarrow>
      r = None \<and>
      connectionsInUse c' = fmdrop (hash E tr cl) (connectionsInUse c) \<and>
      (if len (freeConnections c) + len (fmdrop (hash E tr cl) (connectionsInUse c)) < poolSize c
       then freeConnections c' =
              fmupd (hash E tr cl) \<lparr>db = cl, creationTime = time_Now_UnixNano E (length tr)\<rparr>
                (freeConnections c) \<and>
            tr' = EvNow (time_Now_UnixNano E (length tr)) # tr
       else freeConnections c' = freeConnections c \<and> tr' = tr) \<and>
      (live_count c = poolSize c \<longrightarrow>
         (if hash E tr cl |\<in>| fmdom (connectionsInUse c)
          then fmlookup (freeConnections c') (hash E tr cl) =
                 Some \<lparr>db = cl, creationTime = time_Now_UnixNano E (length tr)\<rparr> \<and>
               live_count c' =
                 (if hash E tr cl |\<in>| fmdom (freeConnections c) then live_count c - 1
                  else live_count c)
          else freeConnections c' = freeConnections c \<and>
               connectionsInUse c' = connectionsInUse c \<and> live_count c' = live_count c)))"
proof -
  have nil: "CheckIn E None c tr = (Some NilPointerDereference, c, tr)"
    by (simp add: CheckIn_def)
  show ?thesis
    using nil
    by (auto simp: CheckIn_Some live_count_def len_fmdrop len_fmupd fmdrop_absent split: if_splits)
qed

theorem CheckIn_behaviour_witness:
  "live_count pool_low = 1 \<and>
   (case CheckIn env_distinct (Some 0) (pool_low\<lparr>poolSize := 1\<rparr>) trace_after_first of
      (r, c', tr') \<Rightarrow>
        r = None \<and> connectionsInUse c' = fmempty \<and>
        fmlookup (freeConnections c') 0 = Some \<lparr>db = 0, creationTime = 11\<rparr> \<and>
        live_count c' = 1 \<and> tr' = EvNow 11 # trace_after_first) \<and>
   (case CheckIn env_distinct (Some 5) (pool_low\<lparr>poolSize := 1\<rparr>) trace_after_first of
      (r, c', tr') \<Rightarrow>
        r = None \<and> freeConnections c' = fmempty \<and>
        connectionsInUse c' = connectionsInUse pool_low \<and> live_count c' = 1 \<and>
        tr' = trace_after_first) \<and>
   live_count (pool_low\<lparr>freeConnections := connectionsInUse pool_low\<rparr>) = 2 \<and>
   (case CheckIn env_distinct (Some 0) (pool_low\<lparr>freeConnections := connectionsInUse pool_low\<rparr>)
           trace_after_first of
      (r, c', tr') \<Rightarrow>
        r = None \<and> connectionsInUse c' = fmempty \<and>
        fmlookup (freeConnections c') 0 = Some \<lparr>db = 0, creationTime = 11\<rparr> \<and>
        live_count c' = 1)"
proof -
  let ?E = env_distinct and ?c = "pool_low\<lparr>poolSize := 1\<rparr>" and ?tr = trace_after_first
  have live: "live_count pool_low = 1" "live_count ?c = poolSize ?c"
    by (simp_all add: live_count_def pool_low_def len_fmupd len_fmempty)
  have h: "hash ?E ?tr 0 = 0" "hash ?E ?tr 5 = 5" "time_Now_UnixNano ?E (length ?tr) = 11"
    by (simp_all add: hash_def env_distinct_def trace_after_first_def)
  have dom: "hash ?E ?tr 0 |\<in>| fmdom (connectionsInUse ?c)"
    "hash ?E ?tr 5 |\<notin>| fmdom (connectionsInUse ?c)"
    "hash ?E ?tr 0 |\<notin>| fmdom (freeConnections ?c)"
    unfolding h by (simp_all add: pool_low_def)
  have dropped: "fmdrop 0 (connectionsInUse ?c) = fmempty"
    by (simp add: pool_low_def fmap_ext)
  have small: "len (freeConnections ?c) + len (fmdrop (hash ?E ?tr 0) (connectionsInUse ?c)) < poolSize ?c"
    "\<not> len (freeConnections ?c) + len (fmdrop (hash ?E ?tr 5) (connectionsInUse ?c)) < poolSize ?c"
    unfolding h by (simp_all add: pool_low_def len_fmdrop len_fmupd len_fmempty)
  obtain r c' tr' where a: "CheckIn ?E (Some 0) ?c ?tr = (r, c', tr')"
    by (metis prod.collapse)
  obtain r5 c5 tr5 where b: "CheckIn ?E (Some 5) ?c ?tr = (r5, c5, tr5)"
    by (metis prod.collapse)
  from CheckIn_behaviour[of ?E ?c ?tr 0 r c' tr'] a live dom small h dropped
  have A: "r = None \<and> connectionsInUse c' = fmempty \<and>
        fmlookup (freeConnections c') 0 = Some \<lparr>db = 0, creationTime = 11\<rparr> \<and>
        live_count c' = 1 \<and> tr' = EvNow 11 # ?tr"
    by simp
  from CheckIn_behaviour[of ?E ?c ?tr 5 r5 c5 tr5] b live dom small h
  have B: "r5 = None \<and> freeConnections c5 = fmempty \<and>
        connectionsInUse c5 = connectionsInUse pool_low \<and> live_count c5 = 1 \<and> tr5 = ?tr"
    by (simp add: pool_low_def fmdrop_absent)
  let ?d = "pool_low\<lparr>freeConnections := connectionsInUse pool_low\<rparr>"
  have live2: "live_count ?d = 2" "live_count ?d = poolSize ?d"
    by (simp_all add: live_count_def pool_low_def len_fmupd len_fmempty)
  have dom2: "hash ?E ?tr 0 |\<in>| fmdom (connectionsInUse ?d)"
    "hash ?E ?tr 0 |\<in>| fmdom (freeConnections ?d)"
    unfolding h by (simp_all add: pool_low_def)
  have dropped2: "fmdrop 0 (connectionsInUse ?d) = fmempty"
    by (simp add: pool_low_def fmap_ext)
  obtain r6 c6 tr6 where d: "CheckIn ?E (Some 0) ?d ?tr = (r6, c6, tr6)"
    by (metis prod.collapse)
  from CheckIn_behaviour[of ?E ?d ?tr 0 r6 c6 tr6] d live2 dom2 h dropped2
  have C: "r6 = None \<and> connectionsInUse c6 = fmempty \<and>
        fmlookup (freeConnections c6) 0 = Some \<lparr>db = 0, creationTime = 11\<rparr> \<and>
        live_count c6 = 1"
    by simp
  from A B C a b d live live2(1) show ?thesis by simp
qed

text \<open>
  C7, as stated, fails. With capacity 2, two checkouts return the clients 0 and 3 and leave
  three connections. The check-in of client 0 finds the count equal to the capacity after the
  removal: client 0 is not stored, and the count goes from 3 to 2. The check-in of client 3
  then starts with the count equal to the capacity: client 3 is stored in the free map, not
  dropped. Next, a state in which the key of client 10 is in both maps and the count equals
  the capacity 2: the check-in of client 10 leaves one connection. Last, the check-in of the
  nil pointer panics.
\<close>

theorem CheckIn_at_capacity_counterexample:
  "(case checkouts env_distinct 2 (fst (CreateConnPool 2 ''db'')) [] of
      (ps, c2, tr2) \<Rightarrow>
        (case CheckIn env_distinct (Some 0) c2 tr2 of
           (r3, c3, tr3) \<Rightarrow>
             (case CheckIn env_distinct (Some 3) c3 tr3 of
                (r4, c4, tr4) \<Rightarrow>
                  ps = [0, 3] \<and> poolSize c2 = 2 \<and>
                  live_count c2 = 3 \<and> live_count c3 = 2 \<and>
                  fmlookup (connectionsInUse c3) 3 = Some \<lparr>db = 3, creationTime = 11\<rparr> \<and>
                  fmlookup (freeConnections c3) 3 = None \<and>
                  fmlookup (freeConnections c4) 3 = Some \<lparr>db = 3, creationTime = 13\<rparr> \<and>
                  live_count c4 = 2))) \<and>
   (case Checkout (failing_at 19 env_braces) (fst (CreateConnPool 2 ''db'')) [] of
      (r1, c1, tr1) \<Rightarrow>
        (case Checkout (failing_at 19 env_braces) c1 tr1 of
           (r2, c2, tr2) \<Rightarrow>
             (case CheckIn (failing_at 19 env_braces) (Some 10) c2 tr2 of
                (r3, c3, tr3) \<Rightarrow>
                  r1 = Inr 10 \<and> poolSize c2 = 2 \<and> live_count c2 = 2 \<and> live_count c3 = 1))) \<and>
   fst (CheckIn env_distinct None (fst (CreateConnPool 2 ''db'')) []) = Some NilPointerDereference"
  by code_simp

section \<open>Checking out and checking in N connections\<close>

text \<open>
  C8, as the code has it. Start from a new pool of capacity \<open>P\<close> with no call made yet, and
  let every creation and validation succeed, no connection expire, the JSON of no client
  change and the connections created have distinct keys. For \<open>N \<le> P\<close>, \<open>N\<close> checkouts return \<open>N\<close>
  distinct connections, and after checking exactly those in, in any order, no connection is
  in use and the free map has \<open>P\<close> entries when \<open>N \<ge> 1\<close> (none when \<open>N = 0\<close>): the number
  of free connections is the capacity, not \<open>N\<close>.
\<close>

theorem checkout_checkin_counts:
  assumes cr: "creation_succeeds E s" and va: "validation_succeeds E" and ne: "never_expires E"
    and st: "stable_json E" and N: "int N \<le> P"
    and outs: "checkouts E N (fst (CreateConnPool P s)) [] = (ps, c1, tr1)"
    and dk: "distinct (map (hash E []) (creations tr1))"
    and qs: "distinct qs" "set qs = set ps"
    and ins: "checkins E qs c1 tr2 = (c2, tr3)"
  shows "length ps = N \<and> distinct ps \<and> len (connectionsInUse c2) = 0 \<and>
         len (freeConnections c2) = (if N = 0 then 0 else P)"
proof (cases N)
  case 0
  with outs qs ins show ?thesis
    by (auto simp: CreateConnPool_def len_fmempty)
next
  case (Suc n)
  from checkouts_fresh[OF cr va ne st N[unfolded Suc] outs[unfolded Suc] dk]
  have l: "length ps = Suc n" and d: "distinct ps" and h1: "holds E P c1 (set ps) 1"
    by simp_all
  from l qs(2) obtain q qs' where q: "qs = q # qs'"
    by (cases qs) auto
  obtain r ca tra where ci: "CheckIn E (Some q) c1 tr2 = (r, ca, tra)"
    by (metis prod.collapse)
  from q qs(2) have "q \<in> set ps" by auto
  from CheckIn_holds[OF st h1 _ this ci] have ha: "holds E P ca (set ps - {q}) 0"
    by simp
  from q qs have s: "set qs' = set ps - {q}" and d': "distinct qs'"
    by auto
  from ins q ci have "checkins E qs' ca tra = (c2, tr3)"
    by simp
  from checkins_holds[OF st ha d' s this] have "holds E P c2 {} 0" .
  with holds_len_inUse[OF this] l d Suc show ?thesis
    by (simp add: holds_def)
qed

theorem checkout_checkin_counts_witness:
  "creation_succeeds (clock_jump 0 5 env_distinct) ''db'' \<and>
   validation_succeeds (clock_jump 0 5 env_distinct) \<and>
   never_expires (clock_jump 0 5 env_distinct) \<and>
   stable_json (clock_jump 0 5 env_distinct) \<and>
   (case checkouts (clock_jump 0 5 env_distinct) 2 (fst (CreateConnPool 3 ''db'')) [] of
      (ps, c1, tr1) \<Rightarrow>
        ps = [0, 3] \<and> creations tr1 = [10, 6, 3, 0] \<and>
        distinct (map (hash (clock_jump 0 5 env_distinct) []) (creations tr1)) \<and>
        (case checkins (clock_jump 0 5 env_distinct) [3, 0] c1 tr1 of
           (c2, tr3) \<Rightarrow> len (connectionsInUse c2) = 0 \<and> len (freeConnections c2) = 3))"
proof -
  let ?E = "clock_jump 0 5 env_distinct"
  have cr: "creation_succeeds ?E ''db''"
    by (simp add: creation_succeeds_def clock_jump_def env_distinct_def)
  have va: "validation_succeeds ?E"
    by (simp add: validation_succeeds_def clock_jump_def env_distinct_def)
  have ne: "never_expires ?E"
    by (simp add: never_expires_def clock_jump_def)
  have st: "stable_json ?E"
    by (simp add: stable_json_def clock_jump_def env_distinct_def)
  obtain ps c1 tr1 where outs: "checkouts ?E 2 (fst (CreateConnPool 3 ''db'')) [] = (ps, c1, tr1)"
    by (metis prod.collapse)
  obtain c2 tr3 where ins: "checkins ?E [3, 0] c1 tr1 = (c2, tr3)"
    by (metis prod.collapse)
  have "case checkouts ?E 2 (fst (CreateConnPool 3 ''db'')) [] of
          (ps, c1, tr1) \<Rightarrow> ps = [0, 3] \<and> creations tr1 = [10, 6, 3, 0]"
    by code_simp
  with outs have ps: "ps = [0, 3]" and made: "creations tr1 = [10, 6, 3, 0]"
    by simp_all
  have "case checkouts ?E 2 (fst (CreateConnPool 3 ''db'')) [] of
          (ps, c1, tr1) \<Rightarrow> distinct (map (hash ?E []) (creations tr1))"
    by code_simp
  with outs have dk: "distinct (map (hash ?E []) (creations tr1))"
    by (simp only: prod.case)
  have qs: "distinct [3, 0 :: nat]" "set [3, 0 :: nat] = set ps"
    using ps by auto
  from checkout_checkin_counts[OF cr va ne st _ outs dk qs ins]
  have "len (connectionsInUse c2) = 0 \<and> len (freeConnections c2) = 3"
    by simp
  with cr va ne st outs ins ps made dk show ?thesis
    by simp
qed

text \<open>
  C8, as stated, fails. With capacity 2 and \<open>N = 1\<close>: one checkout and the check-in of the connection it returned
  leave two free connections, not one.
\<close>

theorem checkin_count_counterexample:
  "(case checkouts env_distinct 1 (fst (CreateConnPool 2 ''db'')) [] of
      (ps, c1, tr1) \<Rightarrow>
        (case checkins env_distinct ps c1 tr1 of
           (c2, tr3) \<Rightarrow>
             ps = [0] \<and> len (connectionsInUse c2) = 0 \<and> len (freeConnections c2) = 2 \<and>
             \<not> len (freeConnections c2) = 1))"
  by code_simp

section \<open>Concurrent callers\<close>

text \<open>
  C9 is about callers that run at the same time under the lock taken at lines 49 and 113. The
  operations here are functions applied one after the other to the state of the pool, so the
  claim has no statement in this development.
\<close>

section \<open>A capacity of zero or less\<close>

text \<open>
  C10. Let every creation succeed and, for capacity zero, every validation. With a negative
  capacity neither fill loop runs, and the \<^verbatim>\<open>Checkout\<close> of a new pool goes to lines 98 to 109:
  it returns, with no error, the connection it creates there and leaves that one connection
  in the maps, which is more than the capacity. With capacity zero the loop of lines 64 to 69,
  whose bound is \<^verbatim>\<open>i <= c.poolSize\<close>, runs once and puts a connection in the free map, which the
  scan then meets. The \<^verbatim>\<open>Checkout\<close> returns a connection created during the call, with no error
  and one connection left in the maps, in every case but one: when the scan finds that
  connection expired and closing it fails, the \<^verbatim>\<open>Checkout\<close> returns the error of the closing and
  leaves no connection.
\<close>

theorem nonpositive_capacity:
  assumes n: "n \<le> 0" and cr: "creation_succeeds E s"
    and zero: "n = 0 \<longrightarrow> validation_succeeds E"
  shows "if n = 0 \<and> closing_expired_fails E s tr
         then \<exists>e c' tr'. Checkout E (fst (CreateConnPool n s)) tr =
                  (Inl (Errorf ''error while closing the connection'' e), c', tr') \<and>
                live_count c' = 0
         else \<exists>p c' tr'. Checkout E (fst (CreateConnPool n s)) tr = (Inr p, c', tr') \<and>
                p \<in> set (creations (take (length tr' - length tr) tr')) \<and>
                live_count c' = 1 \<and> poolSize c' < live_count c'"
proof -
  define c where "c = fst (CreateConnPool n s)"
  have c: "freeConnections c = fmempty" "connectionsInUse c = fmempty" "poolSize c = n"
    "connStr c = s" "expiry c = 300000000000"
    by (simp_all add: c_def CreateConnPool_def)
  from cr obtain cl where "mongo_NewClient E (Suc (length tr)) s = Inr cl"
    unfolding creation_succeeds_def by blast
  with c have cl: "mongo_NewClient E (Suc (length tr)) (connStr c) = Inr cl"
    by simp
  from cr obtain cl2 where "mongo_NewClient E (length tr + 5) s = Inr cl2"
    unfolding creation_succeeds_def by blast
  with c have cl2: "mongo_NewClient E (length tr + 5) (connStr c) = Inr cl2"
    by simp
  show ?thesis
  proof (cases "n = 0")
    case True
    with zero have va: "validation_succeeds E" by simp
    from True c have z: "poolSize c = 0" by simp
    from cl c have rej: "closing_expired_fails E s tr \<longleftrightarrow>
        expired (time_Now_UnixNano E (length tr))
          \<lparr>db = cl, creationTime = time_Now_UnixNano E (length tr + 3)\<rparr> 300000000000 \<and>
        client_Disconnect E (length tr + 4) cl \<noteq> None"
      by (simp add: closing_expired_fails_def)
    from Checkout_empty_zero_cases[OF c(1,2) z c(5) cl cl2 va] True z rej
    show ?thesis
      unfolding c_def[symmetric] by (auto split: if_splits)
  next
    case False
    with n c have "poolSize c < 0" by simp
    from Checkout_empty_negative[OF c(1,2) this cl] obtain c' tr' where
      "Checkout E c tr = (Inr cl, c', tr')"
      "cl \<in> set (creations (take (length tr' - length tr) tr'))"
      "live_count c' = 1" "poolSize c' = poolSize c"
      by blast
    with n c(3) have "\<exists>p c' tr'. Checkout E c tr = (Inr p, c', tr') \<and>
                p \<in> set (creations (take (length tr' - length tr) tr')) \<and>
                live_count c' = 1 \<and> poolSize c' < live_count c'"
      by (intro exI[of _ cl] exI[of _ c'] exI[of _ tr']) simp
    with False show ?thesis
      unfolding c_def by simp
  qed
qed

theorem nonpositive_capacity_witness:
  "creation_succeeds env_clock_back ''db'' \<and> validation_succeeds env_clock_back \<and>
   closing_expired_fails env_clock_back ''db'' [] \<and>
   \<not> closing_expired_fails (env_clock_back\<lparr>client_Disconnect := (\<lambda>t p. None)\<rparr>) ''db'' [] \<and>
   \<not> closing_expired_fails env_distinct ''db'' [] \<and>
   (case Checkout env_clock_back (fst (CreateConnPool 0 ''db'')) [] of
      (r, c', tr') \<Rightarrow>
        r = Inl (Errorf ''error while closing the connection'' (External ''client is disconnected'')) \<and>
        live_count c' = 0) \<and>
   (case Checkout (env_clock_back\<lparr>client_Disconnect := (\<lambda>t p. None)\<rparr>)
           (fst (CreateConnPool 0 ''db'')) [] of
      (r, c', tr') \<Rightarrow> r = Inr 5 \<and> creations tr' = [5, 1] \<and> live_count c' = 1 \<and> poolSize c' = 0) \<and>
   (case Checkout env_distinct (fst (CreateConnPool 0 ''db'')) [] of
      (r, c', tr') \<Rightarrow> r = Inr 1 \<and> creations tr' = [1] \<and> live_count c' = 1 \<and> poolSize c' = 0) \<and>
   (case Checkout env_clock_back (fst (CreateConnPool (- 1) ''db'')) [] of
      (r, c', tr') \<Rightarrow> r = Inr 1 \<and> creations tr' = [1] \<and> live_count c' = 1 \<and> poolSize c' = - 1)"
proof -
  let ?B = env_clock_back and ?C = "env_clock_back\<lparr>client_Disconnect := (\<lambda>t p. None)\<rparr>"
  let ?D = env_distinct
  have cr: "creation_succeeds ?B ''db''" "creation_succeeds ?C ''db''" "creation_succeeds ?D ''db''"
    by (simp_all add: creation_succeeds_def env_clock_back_def env_distinct_def)
  have va: "validation_succeeds ?B" "validation_succeeds ?C" "validation_succeeds ?D"
    by (simp_all add: validation_succeeds_def env_clock_back_def env_distinct_def)
  have rej: "closing_expired_fails ?B ''db'' []" "\<not> closing_expired_fails ?C ''db'' []"
    "\<not> closing_expired_fails ?D ''db'' []"
    by (simp_all add: closing_expired_fails_def expired_def env_clock_back_def env_distinct_def)
  from nonpositive_capacity[of 0 ?B "''db''" "[]"] cr va rej
  obtain e cb trb where b: "Checkout ?B (fst (CreateConnPool 0 ''db'')) [] =
      (Inl (Errorf ''error while closing the connection'' e), cb, trb)" and lb: "live_count cb = 0"
    by auto
  from nonpositive_capacity[of 0 ?C "''db''" "[]"] cr va rej
  obtain p cc trc where c: "Checkout ?C (fst (CreateConnPool 0 ''db'')) [] = (Inr p, cc, trc)"
    and lc: "live_count cc = 1"
    by auto
  from nonpositive_capacity[of 0 ?D "''db''" "[]"] cr va rej
  obtain q cd trd where d: "Checkout ?D (fst (CreateConnPool 0 ''db'')) [] = (Inr q, cd, trd)"
    and ld: "live_count cd = 1"
    by auto
  from nonpositive_capacity[of "- 1" ?B "''db''" "[]"] cr
  obtain q' cn trn where n: "Checkout ?B (fst (CreateConnPool (- 1) ''db'')) [] = (Inr q', cn, trn)"
    and ln: "live_count cn = 1"
    by auto
  have "case Checkout ?B (fst (CreateConnPool 0 ''db'')) [] of
          (r, c', tr') \<Rightarrow>
            r = Inl (Errorf ''error while closing the connection'' (External ''client is disconnected''))"
    by code_simp
  moreover have "case Checkout ?C (fst (CreateConnPool 0 ''db'')) [] of
          (r, c', tr') \<Rightarrow> r = Inr 5 \<and> creations tr' = [5, 1] \<and> poolSize c' = 0"
    by code_simp
  moreover have "case Checkout ?D (fst (CreateConnPool 0 ''db'')) [] of
          (r, c', tr') \<Rightarrow> r = Inr 1 \<and> creations tr' = [1] \<and> poolSize c' = 0"
    by code_simp
  moreover have "case Checkout ?B (fst (CreateConnPool (- 1) ''db'')) [] of
          (r, c', tr') \<Rightarrow> r = Inr 1 \<and> creations tr' = [1] \<and> poolSize c' = - 1"
    by code_simp
  ultimately show ?thesis
    using b lb c lc d ld n ln cr va rej by simp
qed

text \<open>
  The run in which C10 fails. With capacity 0, every creation and validation succeeding and
  the clock set back by 400 seconds after its first reading: the checkout reads the clock, the
  fill of the difference creates client 1 with a creation time 400 seconds earlier, the scan
  finds it expired and closes it, \<^verbatim>\<open>Disconnect\<close> fails, and the checkout returns that error and
  leaves no connection.
\<close>

theorem clock_set_back_counterexample:
  "creation_succeeds env_clock_back ''db'' \<and> validation_succeeds env_clock_back \<and>
   (case Checkout env_clock_back (fst (CreateConnPool 0 ''db'')) [] of
      (r, c', tr') \<Rightarrow>
        r = Inl (Errorf ''error while closing the connection'' (External ''client is disconnected'')) \<and>
        creations tr' = [1] \<and> disconnects tr' = [1] \<and> live_count c' = 0)"
proof -
  have "creation_succeeds env_clock_back ''db''"
    by (simp add: creation_succeeds_def env_clock_back_def env_distinct_def)
  moreover have "validation_succeeds env_clock_back"
    by (simp add: validation_succeeds_def env_clock_back_def env_distinct_def)
  moreover have "case Checkout env_clock_back (fst (CreateConnPool 0 ''db'')) [] of
      (r, c', tr') \<Rightarrow>
        r = Inl (Errorf ''error while closing the connection'' (External ''client is disconnected'')) \<and>
        creations tr' = [1] \<and> disconnects tr' = [1] \<and> live_count c' = 0"
    by code_simp
  ultimately show ?thesis by simp
qed

end
